theory Spec2Isabelle
  imports Complex_Main "HOL-Library.Log_Nat" "HOL-Library.Signed_Division" "HOL-Library.Word"
begin

unbundle bit_operations_syntax

section \<open>Double-precision arithmetic\<close>

text \<open>
  The C++ type \<^verbatim>\<open>double\<close> is IEEE 754 binary64. A finite double is a real number, so the
  type is modelled by \<^typ>\<open>real\<close>; every arithmetic operation of the source computes the exact
  result and rounds it to the nearest representable value, ties to even, which is what
  \<open>round_double\<close> does (53-bit significand, gradual underflow below \<open>2 ^ (- 1022)\<close>).
  Infinities, NaN, the sign of zero and overflow are not represented: the specification's data
  model takes every quantity to be a real number.
\<close>

type_synonym double = real

definition pow2 :: "int \<Rightarrow> real" where
  "pow2 e = (if 0 \<le> e then 2 ^ nat e else 1 / 2 ^ nat (- e))"

text \<open>\<open>ilog2 x\<close> is the exponent \<open>e\<close> with \<open>2 ^ e \<le> x < 2 ^ (e + 1)\<close>, for \<open>0 < x\<close>.\<close>

definition ilog2 :: "real \<Rightarrow> int" where
  "ilog2 x = (if 1 \<le> x then bitlen \<lfloor>x\<rfloor> - 1 else - bitlen (\<lceil>1 / x\<rceil> - 1))"

definition round_half_even :: "real \<Rightarrow> int" where
  "round_half_even y =
     (let f = \<lfloor>y\<rfloor>; r = y - of_int f
      in if r < 1 / 2 then f else if 1 / 2 < r then f + 1 else if even f then f else f + 1)"

definition round_double :: "real \<Rightarrow> double" where
  "round_double x =
     (if x = 0 then 0
      else let e = max (ilog2 \<bar>x\<bar>) (- 1022); u = pow2 (e - 52)
           in sgn x * of_int (round_half_even (\<bar>x\<bar> / u)) * u)"

definition dadd :: "double \<Rightarrow> double \<Rightarrow> double" where
  "dadd a b = round_double (a + b)"

definition dsub :: "double \<Rightarrow> double \<Rightarrow> double" where
  "dsub a b = round_double (a - b)"

definition dmul :: "double \<Rightarrow> double \<Rightarrow> double" where
  "dmul a b = round_double (a * b)"

definition ddiv :: "double \<Rightarrow> double \<Rightarrow> double" where
  "ddiv a b = round_double (a / b)"

text \<open>A decimal literal of the source denotes the double nearest to it.\<close>

definition dlit :: "real \<Rightarrow> double" where
  "dlit x = round_double x"

text \<open>The implicit conversion \<^verbatim>\<open>int\<close> to \<^verbatim>\<open>double\<close> (exact for every 32-bit value).\<close>

definition double_of_int :: "int \<Rightarrow> double" where
  "double_of_int i = round_double (of_int i)"

text \<open>
  The conversion \<^verbatim>\<open>double\<close> to \<^verbatim>\<open>int\<close> truncates toward zero. For a value outside the range
  of a 32-bit \<^verbatim>\<open>int\<close> the C++ standard leaves the result undefined; the model returns the
  value the x86 conversion instruction produces there, \<open>- 2 ^ 31\<close>.
\<close>

definition int_of_double :: "double \<Rightarrow> int" where
  "int_of_double x =
     (let t = (if 0 \<le> x then \<lfloor>x\<rfloor> else \<lceil>x\<rceil>)
      in if - (2 ^ 31) \<le> t \<and> t < 2 ^ 31 then t else - (2 ^ 31))"

text \<open>\<^verbatim>\<open>qLn\<close>: the natural logarithm, rounded to a double.\<close>

definition qLn :: "double \<Rightarrow> double" where
  "qLn x = round_double (ln x)"

section \<open>Colors\<close>

text \<open>
  \<^verbatim>\<open>QRgb\<close> is Qt's 32-bit \<^verbatim>\<open>0xAARRGGBB\<close> value; \<^verbatim>\<open>qRgb(r, g, b)\<close> packs three channels under
  an opaque alpha, masking each argument to eight bits. A \<^verbatim>\<open>QColor\<close> stop is, as in the
  specification's data model, an RGB triple with channels in \<open>0..255\<close>.
\<close>

type_synonym QRgb = "32 word"

definition qRgb :: "int \<Rightarrow> int \<Rightarrow> int \<Rightarrow> QRgb" where
  "qRgb r g b =
     push_bit 24 255 OR push_bit 16 (word_of_int r AND 255)
       OR push_bit 8 (word_of_int g AND 255) OR (word_of_int b AND 255)"

definition qRed :: "QRgb \<Rightarrow> int" where
  "qRed c = uint (drop_bit 16 c AND 255)"

definition qGreen :: "QRgb \<Rightarrow> int" where
  "qGreen c = uint (drop_bit 8 c AND 255)"

definition qBlue :: "QRgb \<Rightarrow> int" where
  "qBlue c = uint (c AND 255)"

record QColor =
  red :: int
  green :: int
  blue :: int

definition QColor_rgb :: "QColor \<Rightarrow> QRgb" where
  "QColor_rgb c = qRgb (red c) (green c) (blue c)"

definition Qt_black :: QColor where
  "Qt_black = \<lparr>red = 0, green = 0, blue = 0\<rparr>"

definition Qt_white :: QColor where
  "Qt_white = \<lparr>red = 255, green = 255, blue = 255\<rparr>"

text \<open>
  Qt's HSV conversions (\<^verbatim>\<open>QColor::toHsv\<close>, \<^verbatim>\<open>hueF\<close>, \<^verbatim>\<open>saturationF\<close>, \<^verbatim>\<open>valueF\<close>,
  \<^verbatim>\<open>QColor::fromHsvF\<close>) belong to the toolkit, not to this repository. They are a parameter of
  the functions that use them: \<open>hsvHueF c\<close> stands for \<^verbatim>\<open>c.toHsv().hueF()\<close>, and
  \<open>fromHsvF h s v\<close> for \<^verbatim>\<open>QColor::fromHsvF(h, s, v).rgb()\<close>.
\<close>

record QtHsv =
  hsvHueF :: "QColor \<Rightarrow> double"
  hsvSaturationF :: "QColor \<Rightarrow> double"
  hsvValueF :: "QColor \<Rightarrow> double"
  fromHsvF :: "double \<Rightarrow> double \<Rightarrow> double \<Rightarrow> QRgb"

section \<open>QCPColorGradient\<close>

datatype ColorInterpolation = ciRGB | ciHSV

datatype GradientPreset =
  gpGrayscale | gpHot | gpCold | gpNight | gpCandy | gpGeography
  | gpIon | gpThermal | gpPolar | gpSpectrum | gpJet | gpHues

record QCPRange =
  lower :: double
  upper :: double

definition range_size :: "QCPRange \<Rightarrow> double" where
  "range_size r = dsub (upper r) (lower r)"

text \<open>
  \<^verbatim>\<open>mColorStops\<close> is a \<^verbatim>\<open>QMap<double, QColor>\<close>: its entries in ascending key order, one per
  key. \<^verbatim>\<open>mColorBuffer\<close> is a \<^verbatim>\<open>QVector<QRgb>\<close>.
\<close>

record QCPColorGradient =
  mLevelCount :: int
  mColorStops :: "(double \<times> QColor) list"
  mColorInterpolation :: ColorInterpolation
  mPeriodic :: bool
  mColorBuffer :: "QRgb list"
  mColorBufferInvalidated :: bool

text \<open>\<^verbatim>\<open>QMap::insert\<close>: a new key is placed in order, an existing key gets the new value.\<close>

fun QMap_insert :: "double \<Rightarrow> QColor \<Rightarrow> (double \<times> QColor) list \<Rightarrow> (double \<times> QColor) list" where
  "QMap_insert k v [] = [(k, v)]"
| "QMap_insert k v ((k', v') # m) =
     (if k < k' then (k, v) # (k', v') # m
      else if k = k' then (k, v) # m
      else (k', v') # QMap_insert k v m)"

text \<open>
  \<^verbatim>\<open>QMap::lowerBound\<close>: the position of the first entry whose key is not less than the
  argument; the number of entries (\<^verbatim>\<open>constEnd\<close>) when there is none.
\<close>

definition lowerBound :: "(double \<times> QColor) list \<Rightarrow> double \<Rightarrow> nat" where
  "lowerBound m k = length (takeWhile (\<lambda>e. fst e < k) m)"

text \<open>
  \<^verbatim>\<open>QVector::at\<close>: reading outside the vector fails an assertion (undefined in a release
  build); the model returns \<open>None\<close>.
\<close>

definition QVector_at :: "'a list \<Rightarrow> int \<Rightarrow> 'a option" where
  "QVector_at xs i = (if 0 \<le> i \<and> i < int (length xs) then Some (xs ! nat i) else None)"

text \<open>\<^verbatim>\<open>QVector::resize\<close>: keeps a prefix, appends zero-initialised entries.\<close>

definition resize :: "QRgb list \<Rightarrow> int \<Rightarrow> QRgb list" where
  "resize xs n = take (nat n) xs @ replicate (nat n - length xs) 0"

definition gradient_eq :: "QCPColorGradient \<Rightarrow> QCPColorGradient \<Rightarrow> bool" where
  "gradient_eq this other =
     (mLevelCount other = mLevelCount this \<and>
      mColorInterpolation other = mColorInterpolation this \<and>
      mPeriodic other = mPeriodic this \<and>
      mColorStops other = mColorStops this)"

definition setLevelCount :: "QCPColorGradient \<Rightarrow> int \<Rightarrow> QCPColorGradient" where
  "setLevelCount g n =
     (let n = (if n < 2 then 2 else n)
      in if n \<noteq> mLevelCount g
         then g\<lparr>mLevelCount := n, mColorBufferInvalidated := True\<rparr>
         else g)"

definition setColorStops :: "QCPColorGradient \<Rightarrow> (double \<times> QColor) list \<Rightarrow> QCPColorGradient" where
  "setColorStops g colorStops = g\<lparr>mColorStops := colorStops, mColorBufferInvalidated := True\<rparr>"

definition setColorStopAt :: "QCPColorGradient \<Rightarrow> double \<Rightarrow> QColor \<Rightarrow> QCPColorGradient" where
  "setColorStopAt g position c =
     g\<lparr>mColorStops := QMap_insert position c (mColorStops g), mColorBufferInvalidated := True\<rparr>"

definition setColorInterpolation :: "QCPColorGradient \<Rightarrow> ColorInterpolation \<Rightarrow> QCPColorGradient" where
  "setColorInterpolation g interpolation =
     (if interpolation \<noteq> mColorInterpolation g
      then g\<lparr>mColorInterpolation := interpolation, mColorBufferInvalidated := True\<rparr>
      else g)"

definition setPeriodic :: "QCPColorGradient \<Rightarrow> bool \<Rightarrow> QCPColorGradient" where
  "setPeriodic g enabled = g\<lparr>mPeriodic := enabled\<rparr>"

definition clearColorStops :: "QCPColorGradient \<Rightarrow> QCPColorGradient" where
  "clearColorStops g = g\<lparr>mColorStops := [], mColorBufferInvalidated := True\<rparr>"

definition QColor3 :: "int \<Rightarrow> int \<Rightarrow> int \<Rightarrow> QColor" where
  "QColor3 r g b = \<lparr>red = r, green = g, blue = b\<rparr>"

text \<open>The stops of a preset, in the order \<^verbatim>\<open>loadPreset\<close> sets them.\<close>

fun presetStops :: "GradientPreset \<Rightarrow> (double \<times> QColor) list" where
  "presetStops gpGrayscale = [(0, Qt_black), (1, Qt_white)]"
| "presetStops gpHot =
     [(0, QColor3 50 0 0), (dlit (2 / 10), QColor3 180 10 0), (dlit (4 / 10), QColor3 245 50 0),
      (dlit (6 / 10), QColor3 255 150 10), (dlit (8 / 10), QColor3 255 255 50),
      (1, QColor3 255 255 255)]"
| "presetStops gpCold =
     [(0, QColor3 0 0 50), (dlit (2 / 10), QColor3 0 10 180), (dlit (4 / 10), QColor3 0 50 245),
      (dlit (6 / 10), QColor3 10 150 255), (dlit (8 / 10), QColor3 50 255 255),
      (1, QColor3 255 255 255)]"
| "presetStops gpNight = [(0, QColor3 10 20 30), (1, QColor3 250 255 250)]"
| "presetStops gpCandy = [(0, QColor3 0 0 255), (1, QColor3 255 250 250)]"
| "presetStops gpGeography =
     [(0, QColor3 70 170 210), (dlit (20 / 100), QColor3 90 160 180),
      (dlit (25 / 100), QColor3 45 130 175), (dlit (30 / 100), QColor3 100 140 125),
      (dlit (5 / 10), QColor3 100 140 100), (dlit (6 / 10), QColor3 130 145 120),
      (dlit (7 / 10), QColor3 140 130 120), (dlit (9 / 10), QColor3 180 190 190),
      (1, QColor3 210 210 230)]"
| "presetStops gpIon =
     [(0, QColor3 50 10 10), (dlit (45 / 100), QColor3 0 0 255), (dlit (8 / 10), QColor3 0 255 255),
      (1, QColor3 0 255 0)]"
| "presetStops gpThermal =
     [(0, QColor3 0 0 50), (dlit (15 / 100), QColor3 20 0 120), (dlit (33 / 100), QColor3 200 30 140),
      (dlit (6 / 10), QColor3 255 100 0), (dlit (85 / 100), QColor3 255 255 40),
      (1, QColor3 255 255 255)]"
| "presetStops gpPolar =
     [(0, QColor3 50 255 255), (dlit (18 / 100), QColor3 10 70 255),
      (dlit (28 / 100), QColor3 10 10 190), (dlit (5 / 10), QColor3 0 0 0),
      (dlit (72 / 100), QColor3 190 10 10), (dlit (82 / 100), QColor3 255 70 10),
      (1, QColor3 255 255 50)]"
| "presetStops gpSpectrum =
     [(0, QColor3 50 0 50), (dlit (15 / 100), QColor3 0 0 255), (dlit (35 / 100), QColor3 0 255 255),
      (dlit (6 / 10), QColor3 255 255 0), (dlit (75 / 100), QColor3 255 30 0),
      (1, QColor3 50 0 0)]"
| "presetStops gpJet =
     [(0, QColor3 0 0 100), (dlit (15 / 100), QColor3 0 50 255), (dlit (35 / 100), QColor3 0 255 255),
      (dlit (65 / 100), QColor3 255 255 0), (dlit (85 / 100), QColor3 255 30 0),
      (1, QColor3 100 0 0)]"
| "presetStops gpHues =
     [(0, QColor3 255 0 0), (ddiv 1 3, QColor3 0 0 255), (ddiv 2 3, QColor3 0 255 0),
      (1, QColor3 255 0 0)]"

fun presetInterpolation :: "GradientPreset \<Rightarrow> ColorInterpolation" where
  "presetInterpolation gpGrayscale = ciRGB"
| "presetInterpolation gpHot = ciRGB"
| "presetInterpolation gpCold = ciRGB"
| "presetInterpolation gpNight = ciHSV"
| "presetInterpolation gpCandy = ciHSV"
| "presetInterpolation gpGeography = ciRGB"
| "presetInterpolation gpIon = ciHSV"
| "presetInterpolation gpThermal = ciRGB"
| "presetInterpolation gpPolar = ciRGB"
| "presetInterpolation gpSpectrum = ciHSV"
| "presetInterpolation gpJet = ciRGB"
| "presetInterpolation gpHues = ciHSV"

definition loadPreset :: "QCPColorGradient \<Rightarrow> GradientPreset \<Rightarrow> QCPColorGradient" where
  "loadPreset g preset =
     fold (\<lambda>(position, c) g. setColorStopAt g position c) (presetStops preset)
       (setColorInterpolation (clearColorStops g) (presetInterpolation preset))"

text \<open>The constructor \<^verbatim>\<open>QCPColorGradient(GradientPreset)\<close>.\<close>

definition newColorGradient :: "GradientPreset \<Rightarrow> QCPColorGradient" where
  "newColorGradient preset =
     loadPreset
       \<lparr>mLevelCount = 350, mColorStops = [], mColorInterpolation = ciRGB, mPeriodic = False,
        mColorBuffer = replicate 350 (qRgb 0 0 0), mColorBufferInvalidated = True\<rparr>
       preset"

subsection \<open>The color buffer\<close>

text \<open>
  The two interpolation branches of \<^verbatim>\<open>updateColorBuffer\<close>, for the factor \<open>t\<close> between the stop
  colors \<open>low\<close> and \<open>high\<close>. The channel expressions are doubles; passing them to \<^verbatim>\<open>qRgb\<close>
  converts them to \<^verbatim>\<open>int\<close>.
\<close>

definition interpolateRGB :: "double \<Rightarrow> QColor \<Rightarrow> QColor \<Rightarrow> QRgb" where
  "interpolateRGB t low high =
     qRgb
       (int_of_double (dadd (dmul (dsub 1 t) (double_of_int (red low))) (dmul t (double_of_int (red high)))))
       (int_of_double (dadd (dmul (dsub 1 t) (double_of_int (green low))) (dmul t (double_of_int (green high)))))
       (int_of_double (dadd (dmul (dsub 1 t) (double_of_int (blue low))) (dmul t (double_of_int (blue high)))))"

definition interpolateHSV :: "QtHsv \<Rightarrow> double \<Rightarrow> QColor \<Rightarrow> QColor \<Rightarrow> QRgb" where
  "interpolateHSV qt t low high =
     (let hueDiff = dsub (hsvHueF qt high) (hsvHueF qt low);
          hue = (if 1 / 2 < hueDiff then dsub (hsvHueF qt low) (dmul t (dsub 1 hueDiff))
                 else if hueDiff < - (1 / 2) then dadd (hsvHueF qt low) (dmul t (dadd 1 hueDiff))
                 else dadd (hsvHueF qt low) (dmul t hueDiff));
          hue = (if hue < 0 then dadd hue 1 else if 1 \<le> hue then dsub hue 1 else hue)
      in fromHsvF qt hue
           (dadd (dmul (dsub 1 t) (hsvSaturationF qt low)) (dmul t (hsvSaturationF qt high)))
           (dadd (dmul (dsub 1 t) (hsvValueF qt low)) (dmul t (hsvValueF qt high))))"

text \<open>
  The body of the loop of \<^verbatim>\<open>updateColorBuffer\<close> from the lower-bound search on: the color of
  the buffer entry whose position is \<open>position\<close>. \<open>it\<close> is the iterator, as an index into the
  stops; it is only run with at least two stops.
\<close>

definition colorAtPosition ::
  "QtHsv \<Rightarrow> (double \<times> QColor) list \<Rightarrow> ColorInterpolation \<Rightarrow> double \<Rightarrow> QRgb" where
  "colorAtPosition qt stops interpolation position =
     (let it = lowerBound stops position
      in if it = length stops then QColor_rgb (snd (stops ! (it - 1)))
         else if it = 0 then QColor_rgb (snd (stops ! it))
         else let high = stops ! it; low = stops ! (it - 1);
                  t = ddiv (dsub position (fst low)) (dsub (fst high) (fst low))
              in case interpolation of
                   ciRGB \<Rightarrow> interpolateRGB t (snd low) (snd high)
                 | ciHSV \<Rightarrow> interpolateHSV qt t (snd low) (snd high))"

text \<open>The position of buffer entry \<open>i\<close>: \<^verbatim>\<open>i*indexToPosFactor\<close>.\<close>

definition levelPosition :: "double \<Rightarrow> nat \<Rightarrow> double" where
  "levelPosition indexToPosFactor i = dmul (double_of_int (int i)) indexToPosFactor"

definition updateColorBuffer :: "QtHsv \<Rightarrow> QCPColorGradient \<Rightarrow> QCPColorGradient" where
  "updateColorBuffer qt g =
     (let buf = (if int (length (mColorBuffer g)) \<noteq> mLevelCount g
                 then resize (mColorBuffer g) (mLevelCount g) else mColorBuffer g);
          buf =
            (if 1 < length (mColorStops g)
             then let indexToPosFactor = ddiv 1 (double_of_int (mLevelCount g - 1))
                  in fold
                       (\<lambda>i b. b[i := colorAtPosition qt (mColorStops g) (mColorInterpolation g)
                                       (levelPosition indexToPosFactor i)])
                       [0..<nat (mLevelCount g)] buf
             else if length (mColorStops g) = 1
             then replicate (length buf) (QColor_rgb (snd (hd (mColorStops g))))
             else replicate (length buf) (qRgb 0 0 0))
      in g\<lparr>mColorBuffer := buf, mColorBufferInvalidated := False\<rparr>)"

subsection \<open>Mapping values to colors\<close>

text \<open>
  The index computation of \<^verbatim>\<open>color\<close> (lines 258 to 274), on the gradient as it is after the
  buffer update: \<open>colorRawIndex\<close> is the value first assigned to \<^verbatim>\<open>index\<close>, \<open>colorIndex\<close> the
  value after the periodic wrap or the clamp. \<^verbatim>\<open>%\<close> truncates toward zero (\<open>smod\<close>).
\<close>

definition colorRawIndex :: "QCPColorGradient \<Rightarrow> double \<Rightarrow> QCPRange \<Rightarrow> bool \<Rightarrow> int" where
  "colorRawIndex g position rng logarithmic =
     (if \<not> logarithmic
      then int_of_double
             (ddiv (dmul (dsub position (lower rng)) (double_of_int (mLevelCount g - 1)))
                (range_size rng))
      else int_of_double
             (dmul (ddiv (qLn (ddiv position (lower rng))) (qLn (ddiv (upper rng) (lower rng))))
                (double_of_int (mLevelCount g - 1))))"

definition colorIndex :: "QCPColorGradient \<Rightarrow> double \<Rightarrow> QCPRange \<Rightarrow> bool \<Rightarrow> int" where
  "colorIndex g position rng logarithmic =
     (let index = colorRawIndex g position rng logarithmic
      in if mPeriodic g
         then (let index = index smod mLevelCount g
               in if index < 0 then index + mLevelCount g else index)
         else (if index < 0 then 0
               else if mLevelCount g \<le> index then mLevelCount g - 1
               else index))"

text \<open>
  \<^verbatim>\<open>color\<close> returns the color and leaves the gradient with its buffer rebuilt; \<open>None\<close> is a
  read outside the buffer.
\<close>

definition color ::
  "QtHsv \<Rightarrow> QCPColorGradient \<Rightarrow> double \<Rightarrow> QCPRange \<Rightarrow> bool \<Rightarrow> (QRgb \<times> QCPColorGradient) option" where
  "color qt g position rng logarithmic =
     (let g = (if mColorBufferInvalidated g then updateColorBuffer qt g else g)
      in map_option (\<lambda>c. (c, g))
           (QVector_at (mColorBuffer g) (colorIndex g position rng logarithmic)))"

text \<open>
  The index \<^verbatim>\<open>colorize\<close> computes for one data value \<open>d\<close>. The source has one loop for each of
  the four combinations of \<^verbatim>\<open>logarithmic\<close> and \<^verbatim>\<open>mPeriodic\<close>; in the linear case the factor
  \<^verbatim>\<open>posToIndexFactor\<close> is computed once, before the loop.
\<close>

definition colorizeIndex :: "QCPColorGradient \<Rightarrow> QCPRange \<Rightarrow> bool \<Rightarrow> double \<Rightarrow> int" where
  "colorizeIndex g rng logarithmic d =
     (if \<not> logarithmic
      then let posToIndexFactor = ddiv (double_of_int (mLevelCount g - 1)) (range_size rng)
           in if mPeriodic g
              then (let index = int_of_double (dmul (dsub d (lower rng)) posToIndexFactor)
                                  smod mLevelCount g
                    in if index < 0 then index + mLevelCount g else index)
              else (let index = int_of_double (dmul (dsub d (lower rng)) posToIndexFactor)
                    in if index < 0 then 0
                       else if mLevelCount g \<le> index then mLevelCount g - 1
                       else index)
      else if mPeriodic g
           then (let index =
                       int_of_double
                         (dmul (ddiv (qLn (ddiv d (lower rng))) (qLn (ddiv (upper rng) (lower rng))))
                            (double_of_int (mLevelCount g - 1)))
                       smod mLevelCount g
                 in if index < 0 then index + mLevelCount g else index)
           else (let index =
                       int_of_double
                         (dmul (ddiv (qLn (ddiv d (lower rng))) (qLn (ddiv (upper rng) (lower rng))))
                            (double_of_int (mLevelCount g - 1)))
                 in if index < 0 then 0
                    else if mLevelCount g \<le> index then mLevelCount g - 1
                    else index))"

text \<open>
  The loop \<^verbatim>\<open>for (int i=0; i<n; ++i) scanLine[i] = mColorBuffer.at(index)\<close>, over the remaining
  values of \<open>i\<close>; \<open>index i\<close> is the index computed for \<open>i\<close>.
\<close>

fun scanLoop :: "QRgb list \<Rightarrow> (nat \<Rightarrow> int) \<Rightarrow> nat list \<Rightarrow> QRgb list \<Rightarrow> QRgb list option" where
  "scanLoop buffer index [] scanLine = Some scanLine"
| "scanLoop buffer index (i # is) scanLine =
     (case QVector_at buffer (index i) of
        None \<Rightarrow> None
      | Some c \<Rightarrow> scanLoop buffer index is (scanLine[i := c]))"

text \<open>
  \<^verbatim>\<open>colorize\<close>. The pointer \<^verbatim>\<open>data\<close> is \<open>None\<close> when null and otherwise the memory it
  addresses, read at \<^verbatim>\<open>dataIndexFactor*i\<close>; \<^verbatim>\<open>scanLine\<close> is \<open>None\<close> when null and otherwise the
  array written, which the caller provides with at least \<open>n\<close> entries. The result is the scan
  line and the gradient after the call, \<open>None\<close> for a read outside the buffer.
\<close>

definition colorize ::
  "QtHsv \<Rightarrow> QCPColorGradient \<Rightarrow> (int \<Rightarrow> double) option \<Rightarrow> QCPRange \<Rightarrow> QRgb list option \<Rightarrow> int \<Rightarrow> int \<Rightarrow> bool
     \<Rightarrow> (QRgb list option \<times> QCPColorGradient) option" where
  "colorize qt g data rng scanLine n dataIndexFactor logarithmic =
     (case data of
        None \<Rightarrow> Some (scanLine, g)
      | Some d \<Rightarrow>
          (case scanLine of
             None \<Rightarrow> Some (None, g)
           | Some line \<Rightarrow>
               (let g = (if mColorBufferInvalidated g then updateColorBuffer qt g else g)
                in map_option (\<lambda>line. (Some line, g))
                     (scanLoop (mColorBuffer g)
                        (\<lambda>i. colorizeIndex g rng logarithmic (d (dataIndexFactor * int i)))
                        [0..<nat n] line))))"

text \<open>
  The class invariant that the buffer, when not marked invalid, has \<^verbatim>\<open>mLevelCount\<close> entries. The
  constructor establishes it and every member function keeps it.
\<close>

definition bufferSized :: "QCPColorGradient \<Rightarrow> bool" where
  "bufferSized g = (mColorBufferInvalidated g \<or> length (mColorBuffer g) = nat (mLevelCount g))"

text \<open>A stand-in for the toolkit's HSV functions, for gradients that interpolate in RGB.\<close>

definition hsvUnused :: QtHsv where
  "hsvUnused =
     \<lparr>hsvHueF = (\<lambda>c. 0), hsvSaturationF = (\<lambda>c. 0), hsvValueF = (\<lambda>c. 0), fromHsvF = (\<lambda>h s v. 0)\<rparr>"

subsection \<open>The buffer entries, in the words of the specification\<close>

text \<open>
  The specification finds the stops for a position by a search through the stops in ascending
  order: the first stop whose position is not below the given position is the match. There may
  be no match (the position is past the last stop), the match may be the first stop, or the
  position lies between the stop before the match and the match. \<open>prev\<close> is the stop before the
  ones still to be searched.
\<close>

datatype StopMatch =
  NoStop | PastLast QColor | AtFirst QColor | Between "double \<times> QColor" "double \<times> QColor"

fun specSearch :: "(double \<times> QColor) option \<Rightarrow> (double \<times> QColor) list \<Rightarrow> real \<Rightarrow> StopMatch" where
  "specSearch prev [] position = (case prev of None \<Rightarrow> NoStop | Some low \<Rightarrow> PastLast (snd low))"
| "specSearch prev (stop # stops) position =
     (if position \<le> fst stop
      then (case prev of None \<Rightarrow> AtFirst (snd stop) | Some low \<Rightarrow> Between low stop)
      else specSearch (Some stop) stops position)"

text \<open>
  The interpolation factor \<open>t = (position - low.position) / (high.position - low.position)\<close> and
  the linear blend \<open>(1 - t) * low + t * high\<close> of one channel, as real numbers.
\<close>

definition specFactor :: "real \<Rightarrow> double \<times> QColor \<Rightarrow> double \<times> QColor \<Rightarrow> real" where
  "specFactor position low high = (position - fst low) / (fst high - fst low)"

definition specBlend :: "real \<Rightarrow> real \<Rightarrow> real \<Rightarrow> real" where
  "specBlend t low high = (1 - t) * low + t * high"

text \<open>The position \<open>i / (levelCount - 1)\<close> of entry \<open>i\<close>.\<close>

definition specPosition :: "int \<Rightarrow> nat \<Rightarrow> real" where
  "specPosition levelCount i = real i / (real_of_int levelCount - 1)"

text \<open>RGB interpolation: the blend of each channel, rounded to an integer.\<close>

definition specRGB :: "real \<Rightarrow> QColor \<Rightarrow> QColor \<Rightarrow> QRgb" where
  "specRGB t low high =
     qRgb (round (specBlend t (of_int (red low)) (of_int (red high))))
       (round (specBlend t (of_int (green low)) (of_int (green high))))
       (round (specBlend t (of_int (blue low)) (of_int (blue high))))"

text \<open>
  HSV interpolation: saturation and value are blended linearly; the hue goes the shorter way
  round the circle of hues, through the wraparound side when the hue difference exceeds one
  half in magnitude, and is wrapped into \<open>[0, 1)\<close>.
\<close>

definition specHue :: "real \<Rightarrow> real \<Rightarrow> real \<Rightarrow> real" where
  "specHue t lowHue highHue =
     (let d = highHue - lowHue;
          hue = (if 1 / 2 < \<bar>d\<bar> then lowHue + t * (d - sgn d) else lowHue + t * d)
      in hue - of_int \<lfloor>hue\<rfloor>)"

definition specHSV :: "QtHsv \<Rightarrow> real \<Rightarrow> QColor \<Rightarrow> QColor \<Rightarrow> QRgb" where
  "specHSV qt t low high =
     fromHsvF qt (specHue t (hsvHueF qt low) (hsvHueF qt high))
       (specBlend t (hsvSaturationF qt low) (hsvSaturationF qt high))
       (specBlend t (hsvValueF qt low) (hsvValueF qt high))"

text \<open>The entry the specification describes for a position.\<close>

definition specEntry :: "QtHsv \<Rightarrow> ColorInterpolation \<Rightarrow> (double \<times> QColor) list \<Rightarrow> real \<Rightarrow> QRgb" where
  "specEntry qt interpolation stops position =
     (case specSearch None stops position of
        NoStop \<Rightarrow> qRgb 0 0 0
      | PastLast c \<Rightarrow> QColor_rgb c
      | AtFirst c \<Rightarrow> QColor_rgb c
      | Between low high \<Rightarrow>
          (case interpolation of
             ciRGB \<Rightarrow> specRGB (specFactor position low high) (snd low) (snd high)
           | ciHSV \<Rightarrow> specHSV qt (specFactor position low high) (snd low) (snd high)))"

subsection \<open>The buffer entries, up to the precision of the arithmetic\<close>

text \<open>
  A channel \<open>c\<close> is near the linear blend when it lies between the blend rounded down, less
  one, and the blend rounded up. An entry is near the RGB interpolation when it is opaque and
  each of its channels is near the blend of the channel.
\<close>

definition nearBlend :: "real \<Rightarrow> int \<Rightarrow> int \<Rightarrow> int \<Rightarrow> bool" where
  "nearBlend t low high c =
     (\<lfloor>specBlend t (of_int low) (of_int high)\<rfloor> - 1 \<le> c \<and>
      c \<le> \<lceil>specBlend t (of_int low) (of_int high)\<rceil>)"

definition nearRGB :: "real \<Rightarrow> QColor \<Rightarrow> QColor \<Rightarrow> QRgb \<Rightarrow> bool" where
  "nearRGB t low high c =
     (c = qRgb (qRed c) (qGreen c) (qBlue c) \<and>
      nearBlend t (red low) (red high) (qRed c) \<and>
      nearBlend t (green low) (green high) (qGreen c) \<and>
      nearBlend t (blue low) (blue high) (qBlue c))"

text \<open>
  The HSV interpolation of the specification with every operation in double arithmetic: the
  factor, the blends of saturation and value, and the hue with its wrap by one addition or
  subtraction of 1.
\<close>

definition specFactorDouble :: "double \<Rightarrow> double \<times> QColor \<Rightarrow> double \<times> QColor \<Rightarrow> double" where
  "specFactorDouble position low high = ddiv (dsub position (fst low)) (dsub (fst high) (fst low))"

definition specBlendDouble :: "double \<Rightarrow> double \<Rightarrow> double \<Rightarrow> double" where
  "specBlendDouble t low high = dadd (dmul (dsub 1 t) low) (dmul t high)"

definition specHueDouble :: "double \<Rightarrow> double \<Rightarrow> double \<Rightarrow> double" where
  "specHueDouble t lowHue highHue =
     (let d = dsub highHue lowHue;
          hue = (if 1 / 2 < \<bar>d\<bar> then dadd lowHue (dmul t (dsub d (sgn d)))
                 else dadd lowHue (dmul t d))
      in if hue < 0 then dadd hue 1 else if 1 \<le> hue then dsub hue 1 else hue)"

definition specHSVDouble :: "QtHsv \<Rightarrow> double \<Rightarrow> QColor \<Rightarrow> QColor \<Rightarrow> QRgb" where
  "specHSVDouble qt t low high =
     fromHsvF qt (specHueDouble t (hsvHueF qt low) (hsvHueF qt high))
       (specBlendDouble t (hsvSaturationF qt low) (hsvSaturationF qt high))
       (specBlendDouble t (hsvValueF qt low) (hsvValueF qt high))"

text \<open>
  \<open>entryAgrees qt interpolation stops position c\<close>: the entry \<open>c\<close> is what the search of the
  specification gives for the position, with the two interpolations read as above.
\<close>

definition entryAgrees ::
  "QtHsv \<Rightarrow> ColorInterpolation \<Rightarrow> (double \<times> QColor) list \<Rightarrow> double \<Rightarrow> QRgb \<Rightarrow> bool" where
  "entryAgrees qt interpolation stops position c =
     (case specSearch None stops position of
        NoStop \<Rightarrow> c = qRgb 0 0 0
      | PastLast col \<Rightarrow> c = QColor_rgb col
      | AtFirst col \<Rightarrow> c = QColor_rgb col
      | Between low high \<Rightarrow>
          (case interpolation of
             ciRGB \<Rightarrow> nearRGB (specFactor position low high) (snd low) (snd high) c
           | ciHSV \<Rightarrow> c = specHSVDouble qt (specFactorDouble position low high) (snd low) (snd high)))"

text \<open>
  The stops as the class holds them: every position is a double and every channel of a color
  is in \<open>0..255\<close>.
\<close>

definition validColor :: "QColor \<Rightarrow> bool" where
  "validColor c =
     (0 \<le> red c \<and> red c \<le> 255 \<and> 0 \<le> green c \<and> green c \<le> 255 \<and> 0 \<le> blue c \<and> blue c \<le> 255)"

definition stopsValid :: "(double \<times> QColor) list \<Rightarrow> bool" where
  "stopsValid stops = list_all (\<lambda>s. round_double (fst s) = fst s \<and> validColor (snd s)) stops"

section \<open>Bar charts: QCPBars and QCPBarsGroup\<close>

subsection \<open>Objects and the plot that owns them\<close>

text \<open>
  Bar series, groups and axes are objects that refer to each other by pointer. A pointer is
  modelled by a natural number, a nullable pointer by an \<open>option\<close>, and the plot by the
  contents of every object. An object that has been destroyed stays in the model; what its
  destructor does to the objects that referred to it is part of the destructor's model.

  An axis is an external collaborator. Of an axis the code reads its orientation, whether its
  range is reversed, the size of its axis rect and the coordinate transform \<^verbatim>\<open>coordToPixel\<close>,
  which is a field here.
\<close>

datatype Orientation = Horizontal | Vertical

datatype WidthType = wtAbsolute | wtAxisRectRatio | wtPlotCoords

datatype SpacingType = stAbsolute | stAxisRectRatio | stPlotCoords

datatype SignDomain = sdNegative | sdBoth | sdPositive

record QCPAxisRect =
  width :: int
  height :: int

record QCPAxis =
  orientation :: Orientation
  rangeReversed :: bool
  axisRect :: "QCPAxisRect option"
  coordToPixel :: "double \<Rightarrow> double"

text \<open>One bar: \<^verbatim>\<open>QCPBarsData\<close>, with its members \<^verbatim>\<open>key\<close> and \<^verbatim>\<open>value\<close>.\<close>

record QCPBarsData =
  mainKey :: double
  mainValue :: double

text \<open>
  \<^verbatim>\<open>mDataContainer\<close> is the sequence of the series' data points, which the container keeps in
  ascending order of key. \<^verbatim>\<open>mBarBelow\<close>, \<^verbatim>\<open>mBarAbove\<close>, \<^verbatim>\<open>mKeyAxis\<close> and \<^verbatim>\<open>mValueAxis\<close> are
  \<^verbatim>\<open>QPointer\<close>s, \<^verbatim>\<open>mBarsGroup\<close> is a plain pointer.
\<close>

record QCPBars =
  mDataContainer :: "QCPBarsData list"
  mWidth :: double
  mWidthType :: WidthType
  mBarsGroup :: "nat option"
  mBaseValue :: double
  mBarBelow :: "nat option"
  mBarAbove :: "nat option"
  mKeyAxis :: "nat option"
  mValueAxis :: "nat option"

record QCPBarsGroup =
  mBars :: "nat list"
  mSpacingType :: SpacingType
  mSpacing :: double

record QCustomPlot =
  barsAt :: "nat \<Rightarrow> QCPBars"
  groupAt :: "nat \<Rightarrow> QCPBarsGroup"
  axisAt :: "nat \<Rightarrow> QCPAxis"
  debugOutput :: "string list"

definition updBars :: "QCustomPlot \<Rightarrow> nat \<Rightarrow> (QCPBars \<Rightarrow> QCPBars) \<Rightarrow> QCustomPlot" where
  "updBars s b f = s\<lparr>barsAt := (barsAt s)(b := f (barsAt s b))\<rparr>"

definition updGroup :: "QCustomPlot \<Rightarrow> nat \<Rightarrow> (QCPBarsGroup \<Rightarrow> QCPBarsGroup) \<Rightarrow> QCustomPlot" where
  "updGroup s g f = s\<lparr>groupAt := (groupAt s)(g := f (groupAt s g))\<rparr>"

definition qDebug :: "QCustomPlot \<Rightarrow> string \<Rightarrow> QCustomPlot" where
  "qDebug s message = s\<lparr>debugOutput := debugOutput s @ [message]\<rparr>"

text \<open>The state of a series and of a group after their constructors.\<close>

definition newBars :: "nat option \<Rightarrow> nat option \<Rightarrow> QCPBars" where
  "newBars keyAxis valueAxis =
     \<lparr>mDataContainer = [], mWidth = dlit (75 / 100), mWidthType = wtPlotCoords, mBarsGroup = None,
      mBaseValue = 0, mBarBelow = None, mBarAbove = None, mKeyAxis = keyAxis,
      mValueAxis = valueAxis\<rparr>"

definition newBarsGroup :: QCPBarsGroup where
  "newBarsGroup = \<lparr>mBars = [], mSpacingType = stAbsolute, mSpacing = 4\<rparr>"

definition setWidth :: "QCustomPlot \<Rightarrow> nat \<Rightarrow> double \<Rightarrow> QCustomPlot" where
  "setWidth s this w = updBars s this (\<lambda>b. b\<lparr>mWidth := w\<rparr>)"

definition setWidthType :: "QCustomPlot \<Rightarrow> nat \<Rightarrow> WidthType \<Rightarrow> QCustomPlot" where
  "setWidthType s this widthType = updBars s this (\<lambda>b. b\<lparr>mWidthType := widthType\<rparr>)"

definition setBaseValue :: "QCustomPlot \<Rightarrow> nat \<Rightarrow> double \<Rightarrow> QCustomPlot" where
  "setBaseValue s this baseValue = updBars s this (\<lambda>b. b\<lparr>mBaseValue := baseValue\<rparr>)"

definition setData :: "QCustomPlot \<Rightarrow> nat \<Rightarrow> QCPBarsData list \<Rightarrow> QCustomPlot" where
  "setData s this d = updBars s this (\<lambda>b. b\<lparr>mDataContainer := d\<rparr>)"

subsection \<open>Stacking\<close>

text \<open>
  \<^verbatim>\<open>connectBars(lower, upper)\<close>. The assignments are made in the order of the source, each on the
  plot the previous one left. \<open>disconnectAbove\<close> is the statement commented "disconnect old bar
  above lower", \<open>disconnectBelow\<close> the one commented "disconnect old bar below upper".
\<close>

definition disconnectAbove :: "QCustomPlot \<Rightarrow> nat \<Rightarrow> QCustomPlot" where
  "disconnectAbove s lowerBars =
     (case mBarAbove (barsAt s lowerBars) of
        Some a \<Rightarrow>
          if mBarBelow (barsAt s a) = Some lowerBars then updBars s a (\<lambda>b. b\<lparr>mBarBelow := None\<rparr>) else s
      | None \<Rightarrow> s)"

definition disconnectBelow :: "QCustomPlot \<Rightarrow> nat \<Rightarrow> QCustomPlot" where
  "disconnectBelow s upperBars =
     (case mBarBelow (barsAt s upperBars) of
        Some a \<Rightarrow>
          if mBarAbove (barsAt s a) = Some upperBars then updBars s a (\<lambda>b. b\<lparr>mBarAbove := None\<rparr>) else s
      | None \<Rightarrow> s)"

definition connectBars :: "QCustomPlot \<Rightarrow> nat option \<Rightarrow> nat option \<Rightarrow> QCustomPlot" where
  "connectBars s lowerBars upperBars =
     (case lowerBars of
        None \<Rightarrow>
          (case upperBars of
             None \<Rightarrow> s
           | Some u \<Rightarrow> updBars (disconnectBelow s u) u (\<lambda>b. b\<lparr>mBarBelow := None\<rparr>))
      | Some l \<Rightarrow>
          (case upperBars of
             None \<Rightarrow> updBars (disconnectAbove s l) l (\<lambda>b. b\<lparr>mBarAbove := None\<rparr>)
           | Some u \<Rightarrow>
               (let s = disconnectAbove s l;
                    s = disconnectBelow s u;
                    s = updBars s l (\<lambda>b. b\<lparr>mBarAbove := Some u\<rparr>)
                in updBars s u (\<lambda>b. b\<lparr>mBarBelow := Some l\<rparr>))))"

definition axisMismatch :: "string" where
  "axisMismatch = ''passed QCPBars* doesn't have same key and value axis as this QCPBars''"

definition moveBelow :: "QCustomPlot \<Rightarrow> nat \<Rightarrow> nat option \<Rightarrow> QCustomPlot" where
  "moveBelow s this bars =
     (if bars = Some this then s
      else if (case bars of
                 Some b \<Rightarrow> mKeyAxis (barsAt s b) \<noteq> mKeyAxis (barsAt s this) \<or>
                           mValueAxis (barsAt s b) \<noteq> mValueAxis (barsAt s this)
               | None \<Rightarrow> False)
      then qDebug s axisMismatch
      else let s = connectBars s (mBarBelow (barsAt s this)) (mBarAbove (barsAt s this))
           in case bars of
                None \<Rightarrow> s
              | Some b \<Rightarrow>
                  (let s = (if mBarBelow (barsAt s b) \<noteq> None
                            then connectBars s (mBarBelow (barsAt s b)) (Some this) else s)
                   in connectBars s (Some this) (Some b)))"

definition moveAbove :: "QCustomPlot \<Rightarrow> nat \<Rightarrow> nat option \<Rightarrow> QCustomPlot" where
  "moveAbove s this bars =
     (if bars = Some this then s
      else if (case bars of
                 Some b \<Rightarrow> mKeyAxis (barsAt s b) \<noteq> mKeyAxis (barsAt s this) \<or>
                           mValueAxis (barsAt s b) \<noteq> mValueAxis (barsAt s this)
               | None \<Rightarrow> False)
      then qDebug s axisMismatch
      else let s = connectBars s (mBarBelow (barsAt s this)) (mBarAbove (barsAt s this))
           in case bars of
                None \<Rightarrow> s
              | Some b \<Rightarrow>
                  (let s = (if mBarAbove (barsAt s b) \<noteq> None
                            then connectBars s (Some this) (mBarAbove (barsAt s b)) else s)
                   in connectBars s (Some b) (Some this)))"

subsection \<open>Group membership\<close>

definition registerBars :: "QCustomPlot \<Rightarrow> nat \<Rightarrow> nat \<Rightarrow> QCustomPlot" where
  "registerBars s this bars =
     (if bars \<notin> set (mBars (groupAt s this))
      then updGroup s this (\<lambda>g. g\<lparr>mBars := mBars g @ [bars]\<rparr>)
      else s)"

text \<open>\<^verbatim>\<open>QList::removeOne\<close> removes the first occurrence.\<close>

definition unregisterBars :: "QCustomPlot \<Rightarrow> nat \<Rightarrow> nat \<Rightarrow> QCustomPlot" where
  "unregisterBars s this bars = updGroup s this (\<lambda>g. g\<lparr>mBars := remove1 bars (mBars g)\<rparr>)"

definition setBarsGroup :: "QCustomPlot \<Rightarrow> nat \<Rightarrow> nat option \<Rightarrow> QCustomPlot" where
  "setBarsGroup s this barsGroup =
     (let s = (case mBarsGroup (barsAt s this) of
                 Some g \<Rightarrow> unregisterBars s g this
               | None \<Rightarrow> s);
          s = updBars s this (\<lambda>b. b\<lparr>mBarsGroup := barsGroup\<rparr>)
      in case barsGroup of
           Some g \<Rightarrow> registerBars s g this
         | None \<Rightarrow> s)"

text \<open>
  \<^verbatim>\<open>QList::indexOf\<close> (\<open>- 1\<close> when absent), \<^verbatim>\<open>QList::move\<close> (both indices inside the list) and
  \<^verbatim>\<open>qBound\<close>.
\<close>

definition QList_indexOf :: "nat list \<Rightarrow> nat \<Rightarrow> int" where
  "QList_indexOf xs x = (if x \<in> set xs then int (length (takeWhile (\<lambda>y. y \<noteq> x) xs)) else - 1)"

definition QList_move :: "nat list \<Rightarrow> int \<Rightarrow> int \<Rightarrow> nat list" where
  "QList_move xs from to =
     (let x = xs ! nat from; ys = take (nat from) xs @ drop (Suc (nat from)) xs
      in take (nat to) ys @ x # drop (nat to) ys)"

definition qBound :: "int \<Rightarrow> int \<Rightarrow> int \<Rightarrow> int" where
  "qBound lo v hi = max lo (min hi v)"

definition QCPBarsGroup_append :: "QCustomPlot \<Rightarrow> nat \<Rightarrow> nat option \<Rightarrow> QCustomPlot" where
  "QCPBarsGroup_append s this bars =
     (case bars of
        None \<Rightarrow> qDebug s ''bars is 0''
      | Some b \<Rightarrow>
          if b \<notin> set (mBars (groupAt s this)) then setBarsGroup s b (Some this)
          else qDebug s ''bars plottable is already in this bars group'')"

definition QCPBarsGroup_insert :: "QCustomPlot \<Rightarrow> nat \<Rightarrow> int \<Rightarrow> nat option \<Rightarrow> QCustomPlot" where
  "QCPBarsGroup_insert s this i bars =
     (case bars of
        None \<Rightarrow> qDebug s ''bars is 0''
      | Some b \<Rightarrow>
          (let s = (if b \<notin> set (mBars (groupAt s this)) then setBarsGroup s b (Some this) else s)
           in updGroup s this
                (\<lambda>g. g\<lparr>mBars := QList_move (mBars g) (QList_indexOf (mBars g) b)
                                   (qBound 0 i (int (length (mBars g)) - 1))\<rparr>)))"

definition QCPBarsGroup_remove :: "QCustomPlot \<Rightarrow> nat \<Rightarrow> nat option \<Rightarrow> QCustomPlot" where
  "QCPBarsGroup_remove s this bars =
     (case bars of
        None \<Rightarrow> qDebug s ''bars is 0''
      | Some b \<Rightarrow>
          if b \<in> set (mBars (groupAt s this)) then setBarsGroup s b None
          else qDebug s ''bars plottable is not in this bars group'')"

text \<open>\<^verbatim>\<open>clear\<close> runs over a copy of the member list.\<close>

definition QCPBarsGroup_clear :: "QCustomPlot \<Rightarrow> nat \<Rightarrow> QCustomPlot" where
  "QCPBarsGroup_clear s this = fold (\<lambda>bars s. setBarsGroup s bars None) (mBars (groupAt s this)) s"

definition QCPBarsGroup_destructor :: "QCustomPlot \<Rightarrow> nat \<Rightarrow> QCustomPlot" where
  "QCPBarsGroup_destructor s this = QCPBarsGroup_clear s this"

text \<open>
  The destructor of a series: its body, and then what the destruction of the object does to the
  \<^verbatim>\<open>QPointer\<close>s that still point to it, which become null.
\<close>

definition clearPointersTo :: "nat \<Rightarrow> QCPBars \<Rightarrow> QCPBars" where
  "clearPointersTo this b =
     b\<lparr>mBarBelow := (if mBarBelow b = Some this then None else mBarBelow b),
       mBarAbove := (if mBarAbove b = Some this then None else mBarAbove b)\<rparr>"

definition QCPBars_destructor :: "QCustomPlot \<Rightarrow> nat \<Rightarrow> QCustomPlot" where
  "QCPBars_destructor s this =
     (let s = setBarsGroup s this None;
          s = (if mBarBelow (barsAt s this) \<noteq> None \<or> mBarAbove (barsAt s this) \<noteq> None
               then connectBars s (mBarBelow (barsAt s this)) (mBarAbove (barsAt s this)) else s)
      in s\<lparr>barsAt := (\<lambda>x. clearPointersTo this (barsAt s x))\<rparr>)"

subsection \<open>Stacked base values and the value range\<close>

text \<open>
  Modelled from the spec: the range queries of the data container, \<^verbatim>\<open>findBeginBelowKey\<close> and
  \<^verbatim>\<open>findEndAboveKey\<close>, whose code is not among the files. On the points in ascending order of
  key, the first returns the position of the last point whose key is below the argument (the
  first point when there is none), the second the position after the first point whose key is
  above the argument (the end when there is none). Positions are indices, the end is the length.
\<close>

definition findBeginBelowKey :: "QCPBarsData list \<Rightarrow> double \<Rightarrow> nat" where
  "findBeginBelowKey d k =
     (let it = length (takeWhile (\<lambda>p. mainKey p < k) d) in if it \<noteq> 0 then it - 1 else it)"

definition findEndAboveKey :: "QCPBarsData list \<Rightarrow> double \<Rightarrow> nat" where
  "findEndAboveKey d k =
     (let it = length (takeWhile (\<lambda>p. mainKey p \<le> k) d) in if it \<noteq> length d then it + 1 else it)"

text \<open>
  The loop of \<^verbatim>\<open>getStackedBaseValue\<close> over the points from \<^verbatim>\<open>it\<close> to \<^verbatim>\<open>itEnd\<close>, with the
  running value of \<^verbatim>\<open>max\<close>.
\<close>

fun stackedMaxLoop :: "double \<Rightarrow> double \<Rightarrow> bool \<Rightarrow> QCPBarsData list \<Rightarrow> double \<Rightarrow> double" where
  "stackedMaxLoop k epsilon positive [] m = m"
| "stackedMaxLoop k epsilon positive (p # ps) m =
     stackedMaxLoop k epsilon positive ps
       (if dsub k epsilon < mainKey p \<and> mainKey p < dadd k epsilon
        then (if (positive \<and> m < mainValue p) \<or> (\<not> positive \<and> mainValue p < m)
              then mainValue p else m)
        else m)"

definition stackedMax :: "QCPBarsData list \<Rightarrow> double \<Rightarrow> bool \<Rightarrow> double" where
  "stackedMax d k positive =
     (let epsilon = (if k = 0 then dlit (1 / 10 ^ 6) else dmul \<bar>k\<bar> (dlit (1 / 10 ^ 6)));
          it = findBeginBelowKey d (dsub k epsilon);
          itEnd = findEndAboveKey d (dadd k epsilon)
      in stackedMaxLoop k epsilon positive (take (itEnd - it) (drop it d)) 0)"

text \<open>
  \<^verbatim>\<open>getStackedBaseValue\<close> calls itself on the series below; on a chain of \<^verbatim>\<open>mBarBelow\<close> that
  runs in a cycle the recursion does not end, which is the value \<open>None\<close>.
\<close>

partial_function (option) getStackedBaseValue ::
  "QCustomPlot \<Rightarrow> nat \<Rightarrow> double \<Rightarrow> bool \<Rightarrow> double option" where
  "getStackedBaseValue s this k positive =
     (case mBarBelow (barsAt s this) of
        Some below \<Rightarrow>
          Option.bind (getStackedBaseValue s below k positive)
            (\<lambda>r. Some (dadd (stackedMax (mDataContainer (barsAt s below)) k positive) r))
      | None \<Rightarrow> Some (mBaseValue (barsAt s this)))"

text \<open>
  The loop of \<^verbatim>\<open>getValueRange\<close> over the data points still to be visited; the state is the
  range and the flags \<^verbatim>\<open>haveLower\<close> and \<^verbatim>\<open>haveUpper\<close>.
\<close>

fun valueRangeLoop ::
  "QCustomPlot \<Rightarrow> nat \<Rightarrow> SignDomain \<Rightarrow> QCPBarsData list \<Rightarrow> QCPRange \<times> bool \<times> bool
     \<Rightarrow> (QCPRange \<times> bool \<times> bool) option" where
  "valueRangeLoop s this inSignDomain [] st = Some st"
| "valueRangeLoop s this inSignDomain (p # ps) (rng, haveLower, haveUpper) =
     (case getStackedBaseValue s this (mainKey p) (0 \<le> mainValue p) of
        None \<Rightarrow> None
      | Some base \<Rightarrow>
          (let current = dadd (mainValue p) base
           in if inSignDomain = sdBoth \<or> (inSignDomain = sdNegative \<and> current < 0) \<or>
                 (inSignDomain = sdPositive \<and> 0 < current)
              then (let (rng, haveLower) =
                          (if current < lower rng \<or> \<not> haveLower
                           then (rng\<lparr>lower := current\<rparr>, True) else (rng, haveLower));
                        (rng, haveUpper) =
                          (if upper rng < current \<or> \<not> haveUpper
                           then (rng\<lparr>upper := current\<rparr>, True) else (rng, haveUpper))
                    in valueRangeLoop s this inSignDomain ps (rng, haveLower, haveUpper))
              else valueRangeLoop s this inSignDomain ps (rng, haveLower, haveUpper)))"

text \<open>\<^verbatim>\<open>getValueRange\<close> returns the range and, through its reference parameter, \<^verbatim>\<open>foundRange\<close>.\<close>

definition getValueRange :: "QCustomPlot \<Rightarrow> nat \<Rightarrow> SignDomain \<Rightarrow> (QCPRange \<times> bool) option" where
  "getValueRange s this inSignDomain =
     map_option (\<lambda>(rng, haveLower, haveUpper). (rng, True))
       (valueRangeLoop s this inSignDomain (mDataContainer (barsAt s this))
          (\<lparr>lower = mBaseValue (barsAt s this), upper = mBaseValue (barsAt s this)\<rparr>, True, True))"

text \<open>
  \<open>stackEnds s b n\<close>: the chain of \<^verbatim>\<open>mBarBelow\<close> from \<open>b\<close> reaches a series with nothing below
  in at most \<open>n\<close> steps. A chain is acyclic when this holds for some \<open>n\<close>.
\<close>

fun stackEnds :: "QCustomPlot \<Rightarrow> nat \<Rightarrow> nat \<Rightarrow> bool" where
  "stackEnds s b 0 = (mBarBelow (barsAt s b) = None)"
| "stackEnds s b (Suc n) =
     (case mBarBelow (barsAt s b) of None \<Rightarrow> True | Some below \<Rightarrow> stackEnds s below n)"




subsection \<open>Pixel widths and group offsets\<close>

text \<open>
  \<^verbatim>\<open>getPixelWidth\<close> writes its results to the reference parameters \<^verbatim>\<open>lower\<close> and \<^verbatim>\<open>upper\<close>,
  and leaves them as they are when the axis it needs is missing: the function takes their
  values before the call and returns their values after it. The diagnostics of the two
  functions of this part, which do not change the plot, are not modelled.
\<close>

definition swapIfReversed :: "QCustomPlot \<Rightarrow> nat option \<Rightarrow> double \<times> double \<Rightarrow> double \<times> double" where
  "swapIfReversed s keyAxis lu =
     (case keyAxis of
        Some a \<Rightarrow>
          if rangeReversed (axisAt s a) \<noteq> (orientation (axisAt s a) = Vertical)
          then (snd lu, fst lu) else lu
      | None \<Rightarrow> lu)"

definition getPixelWidth :: "QCustomPlot \<Rightarrow> nat \<Rightarrow> double \<Rightarrow> double \<times> double \<Rightarrow> double \<times> double" where
  "getPixelWidth s this k lu =
     (case mWidthType (barsAt s this) of
        wtAbsolute \<Rightarrow>
          (let up = dmul (mWidth (barsAt s this)) (1 / 2); lo = - up
           in swapIfReversed s (mKeyAxis (barsAt s this)) (lo, up))
      | wtAxisRectRatio \<Rightarrow>
          (case mKeyAxis (barsAt s this) of
             Some a \<Rightarrow>
               (case axisRect (axisAt s a) of
                  Some r \<Rightarrow>
                    (let up = (if orientation (axisAt s a) = Horizontal
                               then dmul (dmul (double_of_int (width r)) (mWidth (barsAt s this))) (1 / 2)
                               else dmul (dmul (double_of_int (height r)) (mWidth (barsAt s this))) (1 / 2));
                         lo = - up
                     in swapIfReversed s (mKeyAxis (barsAt s this)) (lo, up))
                | None \<Rightarrow> lu)
           | None \<Rightarrow> lu)
      | wtPlotCoords \<Rightarrow>
          (case mKeyAxis (barsAt s this) of
             Some a \<Rightarrow>
               (let keyPixel = coordToPixel (axisAt s a) k;
                    up = dsub (coordToPixel (axisAt s a)
                                 (dadd k (dmul (mWidth (barsAt s this)) (1 / 2)))) keyPixel;
                    lo = dsub (coordToPixel (axisAt s a)
                                 (dsub k (dmul (mWidth (barsAt s this)) (1 / 2)))) keyPixel
                in (lo, up))
           | None \<Rightarrow> lu))"

text \<open>
  \<^verbatim>\<open>getPixelSpacing\<close> reads the key axis of \<^verbatim>\<open>bars\<close>, and the axis rect, without a check; \<open>None\<close>
  is the dereference of a null pointer.
\<close>

definition getPixelSpacing :: "QCustomPlot \<Rightarrow> nat \<Rightarrow> nat \<Rightarrow> double \<Rightarrow> double option" where
  "getPixelSpacing s this bars keyCoord =
     (case mSpacingType (groupAt s this) of
        stAbsolute \<Rightarrow> Some (mSpacing (groupAt s this))
      | stAxisRectRatio \<Rightarrow>
          (case mKeyAxis (barsAt s bars) of
             None \<Rightarrow> None
           | Some a \<Rightarrow>
               (case axisRect (axisAt s a) of
                  None \<Rightarrow> None
                | Some r \<Rightarrow>
                    if orientation (axisAt s a) = Horizontal
                    then Some (dmul (double_of_int (width r)) (mSpacing (groupAt s this)))
                    else Some (dmul (double_of_int (height r)) (mSpacing (groupAt s this)))))
      | stPlotCoords \<Rightarrow>
          (case mKeyAxis (barsAt s bars) of
             None \<Rightarrow> None
           | Some a \<Rightarrow>
               (let keyPixel = coordToPixel (axisAt s a) keyCoord
                in Some (dsub (coordToPixel (axisAt s a) (dadd keyCoord (mSpacing (groupAt s this))))
                           keyPixel))))"

text \<open>
  The loop \<^verbatim>\<open>while (b->barBelow()) b = b->barBelow()\<close>; \<open>None\<close> when it does not end.
\<close>

partial_function (option) stackBase :: "QCustomPlot \<Rightarrow> nat \<Rightarrow> nat option" where
  "stackBase s b =
     (case mBarBelow (barsAt s b) of
        Some below \<Rightarrow> stackBase s below
      | None \<Rightarrow> Some b)"

text \<open>The first loop of \<^verbatim>\<open>keyPixelOffset\<close>, which collects the base bars of the members.\<close>

fun collectBaseBars :: "QCustomPlot \<Rightarrow> nat list \<Rightarrow> nat list \<Rightarrow> nat list option" where
  "collectBaseBars s [] baseBars = Some baseBars"
| "collectBaseBars s (b # bs) baseBars =
     (case stackBase s b of
        None \<Rightarrow> None
      | Some b \<Rightarrow> collectBaseBars s bs (if b \<notin> set baseBars then baseBars @ [b] else baseBars))"

text \<open>
  The two loops over the bars between the center and the bar in question, over the remaining
  indices; the state is \<^verbatim>\<open>result\<close>, \<^verbatim>\<open>lowerPixelWidth\<close> and \<^verbatim>\<open>upperPixelWidth\<close>.
\<close>

fun offsetLoopLeft ::
  "QCustomPlot \<Rightarrow> nat \<Rightarrow> nat list \<Rightarrow> double \<Rightarrow> int list \<Rightarrow> double \<times> double \<times> double
     \<Rightarrow> (double \<times> double \<times> double) option" where
  "offsetLoopLeft s this baseBars keyCoord [] st = Some st"
| "offsetLoopLeft s this baseBars keyCoord (i # is) (result, lu) =
     (let lu = getPixelWidth s (baseBars ! nat i) keyCoord lu;
          result = dsub result \<bar>dsub (snd lu) (fst lu)\<bar>
      in case getPixelSpacing s this (baseBars ! nat i) keyCoord of
           None \<Rightarrow> None
         | Some sp \<Rightarrow> offsetLoopLeft s this baseBars keyCoord is (dsub result sp, lu))"

fun offsetLoopRight ::
  "QCustomPlot \<Rightarrow> nat \<Rightarrow> nat list \<Rightarrow> double \<Rightarrow> int list \<Rightarrow> double \<times> double \<times> double
     \<Rightarrow> (double \<times> double \<times> double) option" where
  "offsetLoopRight s this baseBars keyCoord [] st = Some st"
| "offsetLoopRight s this baseBars keyCoord (i # is) (result, lu) =
     (let lu = getPixelWidth s (baseBars ! nat i) keyCoord lu;
          result = dadd result \<bar>dsub (snd lu) (fst lu)\<bar>
      in case getPixelSpacing s this (baseBars ! nat i) keyCoord of
           None \<Rightarrow> None
         | Some sp \<Rightarrow> offsetLoopRight s this baseBars keyCoord is (dadd result sp, lu))"

text \<open>
  \<^verbatim>\<open>keyPixelOffset\<close>; \<open>None\<close> when a loop over a stack does not end or a null axis is
  dereferenced. \<open>size\<close> is \<^verbatim>\<open>baseBars.size()\<close>; the indices of the loop that counts down from
  \<^verbatim>\<open>startIndex\<close> to above \<^verbatim>\<open>index\<close> are \<open>rev [index + 1..startIndex]\<close>, those of the loop that counts
  up from \<^verbatim>\<open>startIndex\<close> to below \<^verbatim>\<open>index\<close> are \<open>[startIndex..index - 1]\<close>.
\<close>

definition keyPixelOffset :: "QCustomPlot \<Rightarrow> nat \<Rightarrow> nat \<Rightarrow> double \<Rightarrow> double option" where
  "keyPixelOffset s this bars keyCoord =
     (case collectBaseBars s (mBars (groupAt s this)) [] of
        None \<Rightarrow> None
      | Some baseBars \<Rightarrow>
     (case stackBase s bars of
        None \<Rightarrow> None
      | Some thisBase \<Rightarrow>
     (let result = 0;
          index = QList_indexOf baseBars thisBase;
          size = int (length baseBars)
      in if 0 \<le> index
         then
           if size smod 2 = 1 \<and> index = (size - 1) sdiv 2 then Some result
           else if double_of_int index < ddiv (double_of_int (size - 1)) 2
           then
             (case (if size smod 2 = 0
                    then map_option (\<lambda>sp. (size sdiv 2 - 1, dsub result (dmul sp (1 / 2)), 0, 0))
                           (getPixelSpacing s this (baseBars ! nat (size sdiv 2 - 1)) keyCoord)
                    else (let lu = getPixelWidth s (baseBars ! nat ((size - 1) sdiv 2)) keyCoord (0, 0);
                              result = dsub result (dmul \<bar>dsub (snd lu) (fst lu)\<bar> (1 / 2))
                          in map_option (\<lambda>sp. ((size - 1) sdiv 2 - 1, dsub result sp, lu))
                               (getPixelSpacing s this (baseBars ! nat ((size - 1) sdiv 2)) keyCoord)))
              of None \<Rightarrow> None
               | Some (startIndex, st) \<Rightarrow>
                   (case offsetLoopLeft s this baseBars keyCoord (rev [index + 1..startIndex]) st of
                      None \<Rightarrow> None
                    | Some (result, lu) \<Rightarrow>
                        (let lu = getPixelWidth s (baseBars ! nat index) keyCoord lu
                         in Some (dsub result (dmul \<bar>dsub (snd lu) (fst lu)\<bar> (1 / 2))))))
           else
             (case (if size smod 2 = 0
                    then map_option (\<lambda>sp. (size sdiv 2, dadd result (dmul sp (1 / 2)), 0, 0))
                           (getPixelSpacing s this (baseBars ! nat (size sdiv 2)) keyCoord)
                    else (let lu = getPixelWidth s (baseBars ! nat ((size - 1) sdiv 2)) keyCoord (0, 0);
                              result = dadd result (dmul \<bar>dsub (snd lu) (fst lu)\<bar> (1 / 2))
                          in map_option (\<lambda>sp. ((size - 1) sdiv 2 + 1, dadd result sp, lu))
                               (getPixelSpacing s this (baseBars ! nat ((size - 1) sdiv 2)) keyCoord)))
              of None \<Rightarrow> None
               | Some (startIndex, st) \<Rightarrow>
                   (case offsetLoopRight s this baseBars keyCoord [startIndex..index - 1] st of
                      None \<Rightarrow> None
                    | Some (result, lu) \<Rightarrow>
                        (let lu = getPixelWidth s (baseBars ! nat index) keyCoord lu
                         in Some (dadd result (dmul \<bar>dsub (snd lu) (fst lu)\<bar> (1 / 2))))))
         else Some result)))"

subsection \<open>Accessors and invariants\<close>

definition barBelow :: "QCustomPlot \<Rightarrow> nat \<Rightarrow> nat option" where
  "barBelow s b = mBarBelow (barsAt s b)"

definition barAbove :: "QCustomPlot \<Rightarrow> nat \<Rightarrow> nat option" where
  "barAbove s b = mBarAbove (barsAt s b)"

definition keyAxis :: "QCustomPlot \<Rightarrow> nat \<Rightarrow> nat option" where
  "keyAxis s b = mKeyAxis (barsAt s b)"

definition valueAxis :: "QCustomPlot \<Rightarrow> nat \<Rightarrow> nat option" where
  "valueAxis s b = mValueAxis (barsAt s b)"

text \<open>
  The stacking links are those of doubly linked chains: a series is above another exactly when
  the other is below it. Every series starts without links, and the stacking operations keep
  the property.
\<close>

definition linksConsistent :: "QCustomPlot \<Rightarrow> bool" where
  "linksConsistent s = (\<forall>x y. barAbove s x = Some y \<longleftrightarrow> barBelow s y = Some x)"

text \<open>
  Membership is consistent in both directions: the group a series refers to is the group whose
  member list holds it, and no member list holds a series twice.
\<close>

definition membershipConsistent :: "QCustomPlot \<Rightarrow> bool" where
  "membershipConsistent s =
     ((\<forall>b g. mBarsGroup (barsAt s b) = Some g \<longleftrightarrow> b \<in> set (mBars (groupAt s g))) \<and>
      (\<forall>g. distinct (mBars (groupAt s g))))"

text \<open>A plot of series and groups as their constructors leave them, on the axes given.\<close>

definition newPlot :: "(nat \<Rightarrow> QCPAxis) \<Rightarrow> (nat \<Rightarrow> nat option) \<Rightarrow> (nat \<Rightarrow> nat option) \<Rightarrow> QCustomPlot" where
  "newPlot ax keyAxes valueAxes =
     \<lparr>barsAt = (\<lambda>b. newBars (keyAxes b) (valueAxes b)), groupAt = (\<lambda>g. newBarsGroup),
      axisAt = ax, debugOutput = []\<rparr>"

text \<open>A horizontal axis that maps a coordinate to \<open>scale\<close> times the coordinate.\<close>

definition linearAxis :: "double \<Rightarrow> QCPAxis" where
  "linearAxis scale =
     \<lparr>orientation = Horizontal, rangeReversed = False,
      axisRect = Some \<lparr>width = 400, height = 300\<rparr>, coordToPixel = (\<lambda>x. dmul scale x)\<rparr>"

text \<open>
  \<open>removedFromStack s a r\<close>: in the plot \<open>r\<close> the series \<open>a\<close> has been taken out of the stack it
  had in \<open>s\<close>. The series that were directly below and above \<open>a\<close> are linked to each other, a
  series that was directly below \<open>a\<close> now has above it what \<open>a\<close> had above it (nothing, when
  \<open>a\<close> was the top), correspondingly for the series directly above \<open>a\<close>, and every other link
  of every other series is as it was.
\<close>

definition removedFromStack :: "QCustomPlot \<Rightarrow> nat \<Rightarrow> QCustomPlot \<Rightarrow> bool" where
  "removedFromStack s a r =
     ((\<forall>l u. barBelow s a = Some l \<and> barAbove s a = Some u \<longrightarrow>
          barAbove r l = Some u \<and> barBelow r u = Some l) \<and>
      (\<forall>x. x \<noteq> a \<longrightarrow>
          barAbove r x = (if barAbove s x = Some a then barAbove s a else barAbove s x) \<and>
          barBelow r x = (if barBelow s x = Some a then barBelow s a else barBelow s x)))"

text \<open>
  Three series on the same two axes (key axis 20, value axis 21), stacked with \<^verbatim>\<open>moveAbove\<close>:
  series 11 above series 10, and series 12 above series 11. Series 13 is on the same axes and
  not stacked, series 14 is on other axes.
\<close>

definition stackPlot :: QCustomPlot where
  "stackPlot =
     moveAbove
       (moveAbove
          (newPlot (\<lambda>a. linearAxis 1) (\<lambda>b. if b = 14 then Some 22 else Some 20)
             (\<lambda>b. if b = 14 then Some 23 else Some 21))
          11 (Some 10))
       12 (Some 11)"

text \<open>
  A group of three series as their constructors leave them (width 0.75 in plot coordinates),
  appended in the order 10, 11, 12 to group 0, with the default absolute spacing of 4 pixels.
  Series 10 and 11 use axis 20 as their key axis, series 12 uses axis \<open>k\<close>; axis 22 maps a
  coordinate to twice the pixel distance the other axes map it to.
\<close>

definition groupPlot :: "nat \<Rightarrow> QCustomPlot" where
  "groupPlot k =
     QCPBarsGroup_append
       (QCPBarsGroup_append
          (QCPBarsGroup_append
             (newPlot (\<lambda>a. if a = 22 then linearAxis 2 else linearAxis 1)
                (\<lambda>b. if b = 12 then Some k else Some 20) (\<lambda>b. Some 21))
             0 (Some 10))
          0 (Some 11))
       0 (Some 12)"

text \<open>
  The stack of \<open>stackPlot\<close> with data: the point \<open>(1, 3)\<close> in the bottom series 10, the point
  \<open>(1, 2)\<close> in series 11 above it, and the point \<open>(1, 5)\<close> in the series 13, which is not
  stacked.
\<close>

definition dataPlot :: QCustomPlot where
  "dataPlot =
     setData
       (setData (setData stackPlot 10 [\<lparr>mainKey = 1, mainValue = 3\<rparr>]) 11
          [\<lparr>mainKey = 1, mainValue = 2\<rparr>])
       13 [\<lparr>mainKey = 1, mainValue = 5\<rparr>]"

section \<open>Properties of double-precision arithmetic\<close>

lemma pow2_powi: "pow2 e = 2 powi e"
  by (simp add: pow2_def power_int_def field_simps)

lemma pow2_pos [simp]: "0 < pow2 e"
  by (simp add: pow2_powi)

lemma pow2_abs [simp]: "\<bar>pow2 e\<bar> = pow2 e"
  using pow2_pos [of e] by (simp del: pow2_pos)

lemma pow2_nonzero [simp]: "pow2 e \<noteq> 0"
  using pow2_pos [of e] by (simp del: pow2_pos)

lemma pow2_add: "pow2 (a + b) = pow2 a * pow2 b"
  by (simp add: pow2_powi power_int_add)

lemma pow2_mono: "a \<le> b \<Longrightarrow> pow2 a \<le> pow2 b"
  by (simp add: pow2_powi power_int_increasing)

lemma pow2_strict_mono: "a < b \<Longrightarrow> pow2 a < pow2 b"
  by (simp add: pow2_powi power_int_strict_increasing)

lemma pow2_le_cancel: "pow2 a \<le> pow2 b \<Longrightarrow> a \<le> b"
  using pow2_strict_mono [of b a] by (cases "a \<le> b") auto

lemma pow2_nat: "0 \<le> e \<Longrightarrow> pow2 e = 2 ^ nat e"
  by (simp add: pow2_def)

lemma pow2_neg: "0 \<le> e \<Longrightarrow> pow2 (- e) = 1 / 2 ^ nat e"
  by (cases "e = 0") (simp_all add: pow2_def)

lemma ilog2_bounds:
  assumes "0 < x"
  shows "pow2 (ilog2 x) \<le> x" and "x < pow2 (ilog2 x + 1)"
proof -
  have "pow2 (ilog2 x) \<le> x \<and> x < pow2 (ilog2 x + 1)"
  proof (cases "1 \<le> x")
    case True
    define n where "n = \<lfloor>x\<rfloor>"
    have n: "1 \<le> n" using True by (simp add: n_def le_floor_iff)
    have nx: "of_int n \<le> x" "x < of_int n + 1" by (simp_all add: n_def)
    from bitlen_bounds [of n] n
    have b: "2 ^ nat (bitlen n - 1) \<le> n" "n < 2 ^ nat (bitlen n)" by simp_all
    have bl: "1 \<le> bitlen n"
      using n by (simp add: bitlen_ge_iff_power)
    have i: "ilog2 x = bitlen n - 1"
      using True by (simp add: ilog2_def n_def)
    have "pow2 (bitlen n - 1) = of_int (2 ^ nat (bitlen n - 1))"
      using bl by (simp add: pow2_nat)
    also have "\<dots> \<le> of_int n" using b(1) by (simp only: of_int_le_iff)
    finally have 1: "pow2 (ilog2 x) \<le> x" using nx(1) by (simp add: i)
    have "n + 1 \<le> 2 ^ nat (bitlen n)" using b(2) by simp
    then have "real_of_int (n + 1) \<le> real_of_int (2 ^ nat (bitlen n))"
      by (simp only: of_int_le_iff)
    then have "x < 2 ^ nat (bitlen n)" using nx(2) by simp
    moreover have "pow2 (ilog2 x + 1) = 2 ^ nat (bitlen n)"
      using bl by (simp add: i pow2_nat)
    ultimately show ?thesis using 1 by simp
  next
    case False
    then have x1: "x < 1" by simp
    define m where "m = \<lceil>1 / x\<rceil> - 1"
    have "1 < 1 / x" using assms x1 by (simp add: field_simps)
    then have "2 \<le> \<lceil>1 / x\<rceil>" by (simp add: le_ceiling_iff)
    then have m: "1 \<le> m" by (simp add: m_def)
    have mx: "of_int m < 1 / x" "1 / x \<le> of_int m + 1"
      unfolding m_def by (simp_all add: less_ceiling_iff [symmetric]) linarith+
    define k where "k = bitlen m"
    from bitlen_bounds [of m] m
    have b: "2 ^ nat (k - 1) \<le> m" "m < 2 ^ nat k" by (simp_all add: k_def)
    have kl: "1 \<le> k" using m by (simp add: k_def bitlen_ge_iff_power)
    have i: "ilog2 x = - k" using False by (simp add: ilog2_def m_def k_def)
    have "m + 1 \<le> 2 ^ nat k" using b(2) by simp
    then have "real_of_int (m + 1) \<le> real_of_int (2 ^ nat k)" by (simp only: of_int_le_iff)
    then have "1 / x \<le> 2 ^ nat k" using mx(2) by simp
    then have "1 / 2 ^ nat k \<le> x" using assms by (simp add: field_simps)
    then have 1: "pow2 (ilog2 x) \<le> x" using kl by (simp add: i pow2_neg)
    have "real_of_int (2 ^ nat (k - 1)) \<le> real_of_int m" using b(1) by (simp only: of_int_le_iff)
    then have "(2::real) ^ nat (k - 1) \<le> real_of_int m" by simp
    then have "2 ^ nat (k - 1) < 1 / x" using mx(1) by linarith
    then have "x < 1 / 2 ^ nat (k - 1)" using assms by (simp add: field_simps)
    moreover have "pow2 (ilog2 x + 1) = 1 / 2 ^ nat (k - 1)"
      using kl pow2_neg [of "k - 1"] by (simp add: i)
    ultimately show ?thesis using 1 by simp
  qed
  then show "pow2 (ilog2 x) \<le> x" and "x < pow2 (ilog2 x + 1)" by simp_all
qed

lemma ilog2_le:
  assumes "0 < x" "x \<le> pow2 k"
  shows "ilog2 x \<le> k"
  using ilog2_bounds(1) [OF assms(1)] assms(2) pow2_le_cancel [of "ilog2 x" k] by simp

lemma ilog2_ge:
  assumes "0 < x" "pow2 k \<le> x"
  shows "k \<le> ilog2 x"
proof -
  have "pow2 k < pow2 (ilog2 x + 1)" using ilog2_bounds(2) [OF assms(1)] assms(2) by simp
  then have "k < ilog2 x + 1" using pow2_mono [of "ilog2 x + 1" k] by (cases "k < ilog2 x + 1") auto
  then show ?thesis by simp
qed

lemma round_half_even_err: "\<bar>of_int (round_half_even y) - y\<bar> \<le> 1 / 2"
  unfolding round_half_even_def Let_def by (auto simp: abs_le_iff)

lemma round_half_even_int [simp]: "round_half_even (of_int k) = k"
  by (simp add: round_half_even_def)


lemma round_double_zero [simp]: "round_double 0 = 0"
  by (simp add: round_double_def)

lemma round_double_unfold:
  assumes "x \<noteq> 0"
  shows "round_double x =
    sgn x * of_int (round_half_even (\<bar>x\<bar> / pow2 (max (ilog2 \<bar>x\<bar>) (- 1022) - 52))) *
      pow2 (max (ilog2 \<bar>x\<bar>) (- 1022) - 52)"
  using assms by (simp add: round_double_def Let_def)

lemma round_double_err_unit:
  assumes "x \<noteq> 0"
  shows "\<bar>round_double x - x\<bar> \<le> pow2 (max (ilog2 \<bar>x\<bar>) (- 1022) - 52) / 2"
proof -
  define u where "u = pow2 (max (ilog2 \<bar>x\<bar>) (- 1022) - 52)"
  define k where "k = round_half_even (\<bar>x\<bar> / u)"
  have u: "0 < u" by (simp add: u_def)
  have "\<bar>of_int k - \<bar>x\<bar> / u\<bar> \<le> 1 / 2"
    unfolding k_def by (rule round_half_even_err)
  then have "\<bar>of_int k - \<bar>x\<bar> / u\<bar> * u \<le> 1 / 2 * u"
    using u by (intro mult_right_mono) simp_all
  moreover have "\<bar>of_int k - \<bar>x\<bar> / u\<bar> * u = \<bar>of_int k * u - \<bar>x\<bar>\<bar>"
  proof -
    have "\<bar>of_int k - \<bar>x\<bar> / u\<bar> * u = \<bar>(of_int k - \<bar>x\<bar> / u) * u\<bar>"
      using u by (simp add: abs_mult)
    also have "(of_int k - \<bar>x\<bar> / u) * u = of_int k * u - \<bar>x\<bar>"
      using u by (simp add: field_simps)
    finally show ?thesis .
  qed
  ultimately have e: "\<bar>of_int k * u - \<bar>x\<bar>\<bar> \<le> u / 2" by simp
  have r: "round_double x = sgn x * (of_int k * u)"
    using round_double_unfold [OF assms] by (simp add: u_def k_def mult.assoc)
  have "round_double x - x = sgn x * (of_int k * u - \<bar>x\<bar>)"
    unfolding r using mult_sgn_abs [of x] by (simp add: algebra_simps)
  then have "\<bar>round_double x - x\<bar> = \<bar>of_int k * u - \<bar>x\<bar>\<bar>"
    using assms by (simp add: abs_mult abs_sgn_eq)
  with e show ?thesis by (simp add: u_def)
qed

lemma round_double_err_512:
  assumes "\<bar>x\<bar> \<le> 512"
  shows "\<bar>round_double x - x\<bar> \<le> 1 / 2 ^ 44"
proof (cases "x = 0")
  case True
  then show ?thesis by simp
next
  case False
  have p9: "pow2 9 = 512" by (simp add: pow2_def)
  have "ilog2 \<bar>x\<bar> \<le> 9"
    using False assms by (intro ilog2_le) (simp_all add: p9)
  then have "max (ilog2 \<bar>x\<bar>) (- 1022) - 52 \<le> - 43" by simp
  then have "pow2 (max (ilog2 \<bar>x\<bar>) (- 1022) - 52) \<le> pow2 (- 43)" by (rule pow2_mono)
  also have "pow2 (- 43) = 1 / 2 ^ 43" by (simp add: pow2_def)
  finally have "pow2 (max (ilog2 \<bar>x\<bar>) (- 1022) - 52) / 2 \<le> 1 / 2 ^ 44" by simp
  with round_double_err_unit [OF False] show ?thesis by linarith
qed

lemma round_double_grid: "\<exists>n::int. round_double x = of_int n * pow2 (- 1074)"
proof (cases "x = 0")
  case True
  then show ?thesis by (auto intro: exI [of _ 0])
next
  case False
  define e where "e = max (ilog2 \<bar>x\<bar>) (- 1022)"
  define k where "k = round_half_even (\<bar>x\<bar> / pow2 (e - 52))"
  have "pow2 (e - 52) = pow2 ((e + 1022) + (- 1074))" by simp
  also have "\<dots> = pow2 (e + 1022) * pow2 (- 1074)" by (rule pow2_add)
  also have "pow2 (e + 1022) = of_int (2 ^ nat (e + 1022))"
    by (simp add: pow2_nat e_def)
  finally have u: "pow2 (e - 52) = of_int (2 ^ nat (e + 1022)) * pow2 (- 1074)" .
  have r: "round_double x = sgn x * of_int k * pow2 (e - 52)"
    using round_double_unfold [OF False] by (simp add: e_def k_def)
  have "round_double x = of_int (sgn (if 0 < x then 1 else - 1) * k * 2 ^ nat (e + 1022)) * pow2 (- 1074)"
    unfolding r u using False by (simp add: sgn_if)
  then show ?thesis by blast
qed

lemma round_double_rel:
  assumes "x = of_int n * pow2 (- 1074)"
  shows "\<bar>round_double x - x\<bar> \<le> \<bar>x\<bar> / 2 ^ 53"
proof (cases "x = 0")
  case True
  then show ?thesis by simp
next
  case False
  show ?thesis
  proof (cases "pow2 (- 1022) \<le> \<bar>x\<bar>")
    case True
    have "- 1022 \<le> ilog2 \<bar>x\<bar>" using False True by (intro ilog2_ge) simp_all
    then have e: "max (ilog2 \<bar>x\<bar>) (- 1022) = ilog2 \<bar>x\<bar>" by simp
    have "pow2 (ilog2 \<bar>x\<bar> - 52) = pow2 (ilog2 \<bar>x\<bar> + (- 52))" by simp
    also have "\<dots> = pow2 (ilog2 \<bar>x\<bar>) * pow2 (- 52)" by (rule pow2_add)
    also have "\<dots> \<le> \<bar>x\<bar> * pow2 (- 52)"
      using ilog2_bounds(1) [of "\<bar>x\<bar>"] False pow2_pos [of "- 52"]
      by (intro mult_right_mono) (simp_all add: less_imp_le del: pow2_pos)
    also have "pow2 (- 52) = 1 / 2 ^ 52" by (simp add: pow2_def)
    finally have "pow2 (ilog2 \<bar>x\<bar> - 52) / 2 \<le> \<bar>x\<bar> / 2 ^ 53" by simp
    with round_double_err_unit [OF False] show ?thesis unfolding e by linarith
  next
    case False2: False
    have "ilog2 \<bar>x\<bar> \<le> - 1022" using False False2 by (intro ilog2_le) simp_all
    then have e: "max (ilog2 \<bar>x\<bar>) (- 1022) - 52 = - 1074" by simp
    have q: "\<bar>x\<bar> / pow2 (- 1074) = real_of_int \<bar>n\<bar>"
      unfolding assms by (simp add: abs_mult)
    have h: "round_half_even (\<bar>x\<bar> / pow2 (- 1074)) = \<bar>n\<bar>"
      unfolding q by (rule round_half_even_int)
    have "round_double x = sgn x * real_of_int \<bar>n\<bar> * pow2 (- 1074)"
      using round_double_unfold [OF False] unfolding e h .
    also have "\<dots> = sgn x * (real_of_int \<bar>n\<bar> * pow2 (- 1074))" by (simp only: mult.assoc)
    also have "real_of_int \<bar>n\<bar> * pow2 (- 1074) = \<bar>x\<bar>"
      unfolding assms by (simp add: abs_mult)
    finally have "round_double x = x" by (simp add: sgn_mult_abs)
    then show ?thesis by simp
  qed
qed


lemma abs_tri:
  fixes x y z :: real
  shows "\<bar>x - y\<bar> \<le> d1 \<Longrightarrow> \<bar>y - z\<bar> \<le> d2 \<Longrightarrow> d1 + d2 \<le> d \<Longrightarrow> \<bar>x - z\<bar> \<le> d"
  by linarith

lemma abs_bound:
  fixes x y :: real
  shows "\<bar>x - y\<bar> \<le> d \<Longrightarrow> \<bar>y\<bar> \<le> M \<Longrightarrow> d + M \<le> N \<Longrightarrow> \<bar>x\<bar> \<le> N"
  by linarith

lemma quotient_err:
  fixes a b A B :: real
  assumes A: "0 < A" "A \<le> B"
    and a: "\<bar>a - A\<bar> \<le> A / 2 ^ 53" and b: "\<bar>b - B\<bar> \<le> B / 2 ^ 53"
  shows "\<bar>a / b - A / B\<bar> \<le> 1 / 2 ^ 51"
proof -
  have B: "0 < B" using A by simp
  have bl: "B / 2 \<le> b"
  proof -
    have "B / 2 ^ 53 \<le> B / 2" using B by (intro divide_left_mono) simp_all
    with b show ?thesis by linarith
  qed
  then have bp: "0 < b" using B by linarith
  have d: "a / b - A / B = ((a - A) * B - A * (b - B)) / (b * B)"
    using bp B by (simp add: field_simps)
  have "\<bar>(a - A) * B - A * (b - B)\<bar> \<le> \<bar>(a - A) * B\<bar> + \<bar>A * (b - B)\<bar>"
    by (rule abs_triangle_ineq4)
  also have "\<dots> = \<bar>a - A\<bar> * B + A * \<bar>b - B\<bar>"
    using A B by (simp add: abs_mult)
  also have "\<dots> \<le> A / 2 ^ 53 * B + A * (B / 2 ^ 53)"
    using a b A B by (intro add_mono mult_right_mono mult_left_mono) simp_all
  also have "\<dots> = A * B / 2 ^ 52" by simp
  finally have n: "\<bar>(a - A) * B - A * (b - B)\<bar> \<le> A * B / 2 ^ 52" .
  have dl: "B / 2 * B \<le> b * B" using bl B by (intro mult_right_mono) simp_all
  have "\<bar>a / b - A / B\<bar> = \<bar>(a - A) * B - A * (b - B)\<bar> / (b * B)"
    unfolding d using bp B by (simp add: abs_mult)
  also have "\<dots> \<le> (A * B / 2 ^ 52) / (B / 2 * B)"
    using n dl B A by (intro frac_le) simp_all
  also have "\<dots> = (A / B) / 2 ^ 51" using B by (simp add: field_simps)
  also have "\<dots> \<le> 1 / 2 ^ 51"
    using A B by (intro divide_right_mono) simp_all
  finally show ?thesis .
qed

lemma factor_err:
  fixes p klo khi :: real
  assumes grid: "p = of_int np * pow2 (- 1074)" "klo = of_int nl * pow2 (- 1074)"
      "khi = of_int nh * pow2 (- 1074)"
    and ord: "klo < p" "p \<le> khi"
  shows "\<bar>ddiv (dsub p klo) (dsub khi klo) - (p - klo) / (khi - klo)\<bar> \<le> 1 / 2 ^ 43"
proof -
  define A where "A = p - klo"
  define B where "B = khi - klo"
  have gA: "A = of_int (np - nl) * pow2 (- 1074)"
    by (simp add: A_def grid algebra_simps)
  have gB: "B = of_int (nh - nl) * pow2 (- 1074)"
    by (simp add: B_def grid algebra_simps)
  have AB: "0 < A" "A \<le> B" using ord by (simp_all add: A_def B_def)
  have a: "\<bar>round_double A - A\<bar> \<le> A / 2 ^ 53"
    using round_double_rel [OF gA] AB by simp
  have b: "\<bar>round_double B - B\<bar> \<le> B / 2 ^ 53"
    using round_double_rel [OF gB] AB by simp
  have q: "\<bar>round_double A / round_double B - A / B\<bar> \<le> 1 / 2 ^ 51"
    by (rule quotient_err [OF AB a b])
  have T: "\<bar>A / B\<bar> \<le> 1" using AB by simp
  have "\<bar>round_double A / round_double B\<bar> \<le> 512"
    by (rule abs_bound [OF q T]) simp
  then have r: "\<bar>round_double (round_double A / round_double B) - round_double A / round_double B\<bar>
      \<le> 1 / 2 ^ 44"
    by (rule round_double_err_512)
  have "\<bar>round_double (round_double A / round_double B) - A / B\<bar> \<le> 1 / 2 ^ 43"
    by (rule abs_tri [OF r q]) simp
  then show ?thesis by (simp add: ddiv_def dsub_def A_def B_def)
qed

lemma product_err:
  fixes x y X Y :: real
  assumes "\<bar>x - X\<bar> \<le> dx" "\<bar>y - Y\<bar> \<le> dy" "\<bar>y\<bar> \<le> My" "\<bar>X\<bar> \<le> MX"
  shows "\<bar>x * y - X * Y\<bar> \<le> dx * My + MX * dy"
proof -
  have "x * y - X * Y = (x - X) * y + X * (y - Y)" by (simp add: algebra_simps)
  then have "\<bar>x * y - X * Y\<bar> \<le> \<bar>(x - X) * y\<bar> + \<bar>X * (y - Y)\<bar>"
    by (simp only: abs_triangle_ineq)
  also have "\<dots> = \<bar>x - X\<bar> * \<bar>y\<bar> + \<bar>X\<bar> * \<bar>y - Y\<bar>" by (simp add: abs_mult)
  also have "\<dots> \<le> dx * My + MX * dy"
    using assms by (intro add_mono mult_mono) (auto intro: order_trans [OF abs_ge_zero])
  finally show ?thesis .
qed

lemma term_err:
  fixes s S :: real and c :: int
  assumes s: "\<bar>s - S\<bar> \<le> 1 / 2 ^ 42" and S: "0 \<le> S" "S \<le> 1" and c: "0 \<le> c" "c \<le> 255"
  shows "\<bar>dmul s (double_of_int c) - S * of_int c\<bar> \<le> 1 / 2 ^ 32"
proof -
  define C where "C = double_of_int c"
  have cr: "\<bar>real_of_int c\<bar> \<le> 255" using c by simp
  then have "\<bar>real_of_int c\<bar> \<le> 512" by simp
  then have Ce: "\<bar>C - of_int c\<bar> \<le> 1 / 2 ^ 44"
    unfolding C_def double_of_int_def by (rule round_double_err_512)
  have CM: "\<bar>C\<bar> \<le> 256" by (rule abs_bound [OF Ce cr]) simp
  have SM: "\<bar>S\<bar> \<le> 1" using S by simp
  have p: "\<bar>s * C - S * of_int c\<bar> \<le> 1 / 2 ^ 42 * 256 + 1 * (1 / 2 ^ 44)"
    by (rule product_err [OF s Ce CM SM])
  have Sc: "\<bar>S * of_int c\<bar> \<le> 255"
  proof -
    have "\<bar>S * of_int c\<bar> = S * of_int c" using S c by simp
    also have "\<dots> \<le> 1 * 255" using S c by (intro mult_mono) simp_all
    finally show ?thesis by simp
  qed
  have "\<bar>s * C\<bar> \<le> 512" by (rule abs_bound [OF p Sc]) simp
  then have r: "\<bar>round_double (s * C) - s * C\<bar> \<le> 1 / 2 ^ 44" by (rule round_double_err_512)
  have "\<bar>round_double (s * C) - S * of_int c\<bar> \<le> 1 / 2 ^ 32"
    by (rule abs_tri [OF r p]) simp
  then show ?thesis by (simp add: dmul_def C_def)
qed

lemma blend_err:
  fixes t T :: real and lo hi :: int
  assumes t: "\<bar>t - T\<bar> \<le> 1 / 2 ^ 43" and T: "0 \<le> T" "T \<le> 1"
    and c: "0 \<le> lo" "lo \<le> 255" "0 \<le> hi" "hi \<le> 255"
  shows "\<bar>dadd (dmul (dsub 1 t) (double_of_int lo)) (dmul t (double_of_int hi)) -
           ((1 - T) * of_int lo + T * of_int hi)\<bar> \<le> 1 / 2 ^ 30"
proof -
  have T1: "\<bar>1 - T\<bar> \<le> 1" using T by simp
  have t1: "\<bar>(1 - t) - (1 - T)\<bar> \<le> 1 / 2 ^ 43" using t by (simp add: abs_minus_commute)
  have "\<bar>1 - t\<bar> \<le> 512" by (rule abs_bound [OF t1 T1]) simp
  then have r1: "\<bar>round_double (1 - t) - (1 - t)\<bar> \<le> 1 / 2 ^ 44" by (rule round_double_err_512)
  have "\<bar>round_double (1 - t) - (1 - T)\<bar> \<le> 1 / 2 ^ 42"
    by (rule abs_tri [OF r1 t1]) simp
  then have w: "\<bar>dsub 1 t - (1 - T)\<bar> \<le> 1 / 2 ^ 42" by (simp add: dsub_def)
  have t': "\<bar>t - T\<bar> \<le> 1 / 2 ^ 42" using t by simp
  have T': "0 \<le> 1 - T" "1 - T \<le> 1" using T by simp_all
  define x where "x = dmul (dsub 1 t) (double_of_int lo)"
  define y where "y = dmul t (double_of_int hi)"
  define X where "X = (1 - T) * real_of_int lo"
  define Y where "Y = T * real_of_int hi"
  have ex: "\<bar>x - X\<bar> \<le> 1 / 2 ^ 32"
    unfolding x_def X_def by (rule term_err [OF w T' c(1,2)])
  have ey: "\<bar>y - Y\<bar> \<le> 1 / 2 ^ 32"
    unfolding y_def Y_def by (rule term_err [OF t' T c(3,4)])
  have X: "\<bar>X\<bar> \<le> 255"
  proof -
    have "\<bar>X\<bar> = X" using T' c by (simp add: X_def)
    also have "X \<le> 1 * 255" unfolding X_def using T' c by (intro mult_mono) simp_all
    finally show ?thesis by simp
  qed
  have Y: "\<bar>Y\<bar> \<le> 255"
  proof -
    have "\<bar>Y\<bar> = Y" using T c by (simp add: Y_def)
    also have "Y \<le> 1 * 255" unfolding Y_def using T c by (intro mult_mono) simp_all
    finally show ?thesis by simp
  qed
  have exy: "\<bar>(x + y) - (X + Y)\<bar> \<le> 1 / 2 ^ 32 + 1 / 2 ^ 32"
    using ex ey by linarith
  have XY: "\<bar>X + Y\<bar> \<le> 255 + 255" using X Y by linarith
  have "\<bar>x + y\<bar> \<le> 512" by (rule abs_bound [OF exy XY]) simp
  then have r: "\<bar>round_double (x + y) - (x + y)\<bar> \<le> 1 / 2 ^ 44" by (rule round_double_err_512)
  have "\<bar>round_double (x + y) - (X + Y)\<bar> \<le> 1 / 2 ^ 30"
    by (rule abs_tri [OF r exy]) simp
  then show ?thesis by (simp add: dadd_def x_def y_def X_def Y_def)
qed

lemma truncate_near_gen:
  fixes v e d :: real
  assumes v: "\<bar>v - e\<bar> \<le> d" and d: "d \<le> 1 / 2" and e: "0 \<le> e" "e \<le> 255"
  shows "\<lfloor>e\<rfloor> - 1 \<le> int_of_double v \<and> int_of_double v \<le> \<lceil>e\<rceil> \<and>
         0 \<le> int_of_double v \<and> int_of_double v \<le> 255"
proof -
  define c where "c = (if 0 \<le> v then \<lfloor>v\<rfloor> else \<lceil>v\<rceil>)"
  have vb: "- 1 < v" "v < 256" using v d e by linarith+
  have c0: "0 \<le> c"
    using vb(1) by (simp add: c_def)
  have cv: "real_of_int c \<le> max v 0" "v - 1 < real_of_int c"
  proof -
    show "real_of_int c \<le> max v 0"
      using vb(1) by (cases "0 \<le> v") (simp_all add: c_def max_def; linarith)+
    show "v - 1 < real_of_int c"
      by (cases "0 \<le> v") (simp_all add: c_def; linarith)+
  qed
  have c255: "c \<le> 255"
    using cv(1) vb(2) by (simp add: max_def split: if_splits; linarith)
  have up: "c \<le> \<lceil>e\<rceil>"
  proof -
    have "real_of_int c < real_of_int \<lceil>e\<rceil> + 1"
      using cv(1) v d e(1) by (simp add: max_def split: if_splits; linarith)
    then show ?thesis by linarith
  qed
  have lw: "\<lfloor>e\<rfloor> - 1 \<le> c"
  proof -
    have "real_of_int \<lfloor>e\<rfloor> - 2 < real_of_int c"
      using cv(2) v d by linarith
    then show ?thesis by linarith
  qed
  have "int_of_double v = c"
    using c0 c255 by (simp add: int_of_double_def c_def [symmetric] Let_def)
  with c0 c255 up lw show ?thesis by simp
qed

lemma truncate_near:
  fixes v e :: real
  assumes "\<bar>v - e\<bar> \<le> 1 / 2 ^ 30" "0 \<le> e" "e \<le> 255"
  shows "\<lfloor>e\<rfloor> - 1 \<le> int_of_double v \<and> int_of_double v \<le> \<lceil>e\<rceil> \<and>
         0 \<le> int_of_double v \<and> int_of_double v \<le> 255"
  by (rule truncate_near_gen [OF assms(1) _ assms(2,3)]) simp

lemma round_double_minus: "round_double (- x) = - round_double x"
  by (simp add: round_double_def Let_def)

lemma blend_channel:
  fixes p klo khi :: real and lo hi :: int
  assumes grid: "p = of_int np * pow2 (- 1074)" "klo = of_int nl * pow2 (- 1074)"
      "khi = of_int nh * pow2 (- 1074)"
    and ord: "klo < p" "p \<le> khi"
    and c: "0 \<le> lo" "lo \<le> 255" "0 \<le> hi" "hi \<le> 255"
    and t: "t = ddiv (dsub p klo) (dsub khi klo)"
    and e: "e = (1 - (p - klo) / (khi - klo)) * real_of_int lo +
                (p - klo) / (khi - klo) * real_of_int hi"
    and v: "v = dadd (dmul (dsub 1 t) (double_of_int lo)) (dmul t (double_of_int hi))"
  shows "\<lfloor>e\<rfloor> - 1 \<le> int_of_double v \<and> int_of_double v \<le> \<lceil>e\<rceil> \<and>
         0 \<le> int_of_double v \<and> int_of_double v \<le> 255"
proof -
  define T where "T = (p - klo) / (khi - klo)"
  have T: "0 \<le> T" "T \<le> 1" using ord by (simp_all add: T_def)
  have tT: "\<bar>t - T\<bar> \<le> 1 / 2 ^ 43"
    unfolding t T_def by (rule factor_err [OF grid ord])
  have ve: "\<bar>v - e\<bar> \<le> 1 / 2 ^ 30"
    unfolding v e T_def [symmetric] by (rule blend_err [OF tT T c])
  have e0: "0 \<le> e"
    using T c by (simp add: e T_def [symmetric])
  have "e \<le> (1 - T) * 255 + T * 255"
    unfolding e T_def [symmetric] using T c by (intro add_mono mult_left_mono) simp_all
  then have e255: "e \<le> 255" by (simp add: algebra_simps)
  show ?thesis by (rule truncate_near [OF ve e0 e255])
qed

section \<open>Properties of the color gradient\<close>

lemma fold_update_upt:
  "n \<le> length b \<Longrightarrow> fold (\<lambda>i b. b[i := f i]) [0..<n] b = map f [0..<n] @ drop n b"
proof (induction n)
  case 0
  then show ?case by simp
next
  case (Suc n)
  then have n: "n < length b" by simp
  have "fold (\<lambda>i b. b[i := f i]) [0..<Suc n] b = (map f [0..<n] @ drop n b)[n := f n]"
    using Suc by simp
  also have "\<dots> = map f [0..<n] @ (drop n b)[0 := f n]"
    by (simp add: list_update_append)
  also have "drop n b = b ! n # drop (Suc n) b"
    using n by (simp add: Cons_nth_drop_Suc)
  finally show ?case by simp
qed

lemma length_resize: "length (resize xs n) = nat n"
  by (simp add: resize_def)

lemma buffer_updateColorBuffer:
  "mColorBuffer (updateColorBuffer qt g) =
     (if 1 < length (mColorStops g)
      then map (\<lambda>i. colorAtPosition qt (mColorStops g) (mColorInterpolation g)
                      (levelPosition (ddiv 1 (double_of_int (mLevelCount g - 1))) i))
             [0..<nat (mLevelCount g)]
      else if length (mColorStops g) = 1
      then replicate (nat (mLevelCount g)) (QColor_rgb (snd (hd (mColorStops g))))
      else replicate (nat (mLevelCount g)) (qRgb 0 0 0))"
proof -
  define buf where "buf = (if int (length (mColorBuffer g)) \<noteq> mLevelCount g
                 then resize (mColorBuffer g) (mLevelCount g) else mColorBuffer g)"
  have len: "length buf = nat (mLevelCount g)"
    by (auto simp: buf_def length_resize)
  show ?thesis
    unfolding updateColorBuffer_def Let_def buf_def [symmetric]
    by (simp add: len fold_update_upt [where b = buf and n = "nat (mLevelCount g)", unfolded len])
qed

lemma fields_updateColorBuffer:
  "mLevelCount (updateColorBuffer qt g) = mLevelCount g"
  "mColorStops (updateColorBuffer qt g) = mColorStops g"
  "mColorInterpolation (updateColorBuffer qt g) = mColorInterpolation g"
  "mPeriodic (updateColorBuffer qt g) = mPeriodic g"
  "mColorBufferInvalidated (updateColorBuffer qt g) = False"
  by (simp_all add: updateColorBuffer_def Let_def)

lemma length_updateColorBuffer:
  "length (mColorBuffer (updateColorBuffer qt g)) = nat (mLevelCount g)"
  by (simp add: buffer_updateColorBuffer)

lemma lowerBound_prefix:
  "\<forall>e \<in> set pre. fst e < p \<Longrightarrow> lowerBound (pre @ rest) p = length pre + lowerBound rest p"
  by (simp add: lowerBound_def takeWhile_append2)

lemma colorAtPosition_search_gen:
  assumes "\<forall>e \<in> set pre. fst e < p" "pre @ rest \<noteq> []"
  shows "case specSearch (if pre = [] then None else Some (last pre)) rest p of
      NoStop \<Rightarrow> False
    | PastLast c \<Rightarrow> colorAtPosition qt (pre @ rest) ip p = QColor_rgb c
    | AtFirst c \<Rightarrow> colorAtPosition qt (pre @ rest) ip p = QColor_rgb c
    | Between low high \<Rightarrow>
        colorAtPosition qt (pre @ rest) ip p =
          (case ip of
             ciRGB \<Rightarrow> interpolateRGB (specFactorDouble p low high) (snd low) (snd high)
           | ciHSV \<Rightarrow> interpolateHSV qt (specFactorDouble p low high) (snd low) (snd high)) \<and>
        fst low < p \<and> p \<le> fst high \<and> low \<in> set (pre @ rest) \<and> high \<in> set (pre @ rest)"
  using assms
proof (induction rest arbitrary: pre)
  case Nil
  then have "takeWhile (\<lambda>e. fst e < p) pre = pre" by (simp add: takeWhile_eq_all_conv)
  then have "lowerBound pre p = length pre" unfolding lowerBound_def by (rule arg_cong)
  with Nil show ?case
    by (simp add: colorAtPosition_def last_conv_nth)
next
  case (Cons s ss)
  show ?case
  proof (cases "p \<le> fst s")
    case True
    then have lb: "lowerBound (pre @ s # ss) p = length pre"
      using Cons.prems(1) by (simp add: lowerBound_prefix) (simp add: lowerBound_def)
    show ?thesis
    proof (cases "pre = []")
      case pre: True
      have "lowerBound (s # ss) p = 0" using True by (simp add: lowerBound_def)
      then show ?thesis using True pre by (simp add: colorAtPosition_def)
    next
      case pre: False
      then have "length pre - Suc 0 < length pre" by (cases pre) simp_all
      moreover have "fst (last pre) < p" using pre Cons.prems(1) by simp
      ultimately show ?thesis
        using True pre
        by (simp add: colorAtPosition_def lb Let_def nth_append last_conv_nth specFactorDouble_def
            split: ColorInterpolation.splits)
    qed
  next
    case False
    then have "\<forall>e \<in> set (pre @ [s]). fst e < p" using Cons.prems(1) by auto
    from Cons.IH [OF this, unfolded append_assoc append_Cons append_Nil] False
    show ?thesis by simp
  qed
qed

lemma colorAtPosition_search:
  assumes "stops \<noteq> []"
  shows "case specSearch None stops p of
      NoStop \<Rightarrow> False
    | PastLast c \<Rightarrow> colorAtPosition qt stops ip p = QColor_rgb c
    | AtFirst c \<Rightarrow> colorAtPosition qt stops ip p = QColor_rgb c
    | Between low high \<Rightarrow>
        colorAtPosition qt stops ip p =
          (case ip of
             ciRGB \<Rightarrow> interpolateRGB (specFactorDouble p low high) (snd low) (snd high)
           | ciHSV \<Rightarrow> interpolateHSV qt (specFactorDouble p low high) (snd low) (snd high)) \<and>
        fst low < p \<and> p \<le> fst high \<and> low \<in> set stops \<and> high \<in> set stops"
proof -
  have "\<forall>e \<in> set []. fst e < p" "[] @ stops \<noteq> []" using assms by simp_all
  from colorAtPosition_search_gen [OF this, of qt ip] show ?thesis
    unfolding append_Nil by simp
qed

lemma channels_qRgb:
  assumes "0 \<le> r" "r \<le> 255" "0 \<le> g" "g \<le> 255" "0 \<le> b" "b \<le> 255"
  shows "qRed (qRgb r g b) = r" "qGreen (qRgb r g b) = g" "qBlue (qRgb r g b) = b"
proof -
  have m: "(255 :: 32 word) = mask 8" by (simp add: mask_eq_exp_minus_1)
  have u: "uint (word_of_int x AND (mask 8 :: 32 word)) = x" if "0 \<le> x" "x \<le> 255" for x
  proof -
    have "uint (word_of_int x AND (mask 8 :: 32 word)) = take_bit 8 (take_bit 32 x)"
      by (simp add: unsigned_take_bit_eq uint_word_of_int_eq flip: take_bit_eq_mask)
    also have "\<dots> = x" using that by (simp add: take_bit_eq_mod)
    finally show ?thesis .
  qed
  have "drop_bit 16 (qRgb r g b) AND mask 8 = (word_of_int r AND mask 8 :: 32 word)"
    unfolding qRgb_def m by (rule bit_word_eqI) (auto simp: bit_simps)
  then show "qRed (qRgb r g b) = r" using u [OF assms(1,2)] by (simp add: qRed_def m)
  have "drop_bit 8 (qRgb r g b) AND mask 8 = (word_of_int g AND mask 8 :: 32 word)"
    unfolding qRgb_def m by (rule bit_word_eqI) (auto simp: bit_simps)
  then show "qGreen (qRgb r g b) = g" using u [OF assms(3,4)] by (simp add: qGreen_def m)
  have "qRgb r g b AND mask 8 = (word_of_int b AND mask 8 :: 32 word)"
    unfolding qRgb_def m by (rule bit_word_eqI) (auto simp: bit_simps)
  then show "qBlue (qRgb r g b) = b" using u [OF assms(5,6)] by (simp add: qBlue_def m)
qed

lemma interpolateHSV_spec: "interpolateHSV qt t low high = specHSVDouble qt t low high"
proof -
  have a: "dadd l (dmul t (dsub d 1)) = dsub l (dmul t (dsub 1 d))" for l d
  proof -
    have "dsub d 1 = - dsub 1 d"
      using round_double_minus [of "1 - d"] by (simp add: dsub_def)
    then have "dmul t (dsub d 1) = - dmul t (dsub 1 d)"
      using round_double_minus [of "t * dsub 1 d"] by (simp add: dmul_def)
    then show ?thesis by (simp add: dadd_def dsub_def)
  qed
  have b: "dsub d (- 1) = dadd 1 d" for d
    by (simp add: dsub_def dadd_def add.commute)
  show ?thesis
    by (auto simp: interpolateHSV_def specHSVDouble_def specHueDouble_def specBlendDouble_def
        Let_def a b abs_if)
qed

lemma newColorGradient_gpGrayscale:
  "newColorGradient gpGrayscale =
     \<lparr>mLevelCount = 350, mColorStops = [(0, Qt_black), (1, Qt_white)], mColorInterpolation = ciRGB,
      mPeriodic = False, mColorBuffer = replicate 350 (qRgb 0 0 0), mColorBufferInvalidated = True\<rparr>"
  by (simp add: newColorGradient_def loadPreset_def setColorStopAt_def setColorInterpolation_def
      clearColorStops_def)

lemma grayscale_level_348:
  "colorAtPosition hsvUnused [(0, Qt_black), (1, Qt_white)] ciRGB
     (levelPosition (ddiv 1 (double_of_int (350 - 1))) 348) = qRgb 254 254 254"
  by code_simp

lemma grayscale_level_349:
  "colorAtPosition hsvUnused [(0, Qt_black), (1, Qt_white)] ciRGB
     (levelPosition (ddiv 1 (double_of_int (350 - 1))) 349) = qRgb 255 255 255"
  by code_simp

lemma color_raw_37:
  "int_of_double (ddiv (dmul (dsub 37 0) (double_of_int (350 - 1))) (dsub 37 0)) = 349"
  by code_simp

lemma colorize_raw_37:
  "int_of_double (dmul (dsub 37 0) (ddiv (double_of_int (350 - 1)) (dsub 37 0))) = 348"
  by code_simp

lemma grayscale_buffer_nth:
  assumes "i < 350"
  shows "mColorBuffer (updateColorBuffer hsvUnused (newColorGradient gpGrayscale)) ! i =
    colorAtPosition hsvUnused [(0, Qt_black), (1, Qt_white)] ciRGB
      (levelPosition (ddiv 1 (double_of_int (350 - 1))) i)"
  using assms by (simp add: buffer_updateColorBuffer newColorGradient_gpGrayscale)

text \<open>
  Claim C1: the color \<^verbatim>\<open>colorize\<close> writes for an element is the color \<^verbatim>\<open>color\<close> returns for the
  same value, range and mode. The code does not do this. In the linear case \<^verbatim>\<open>colorize\<close>
  multiplies by the factor \<^verbatim>\<open>(mLevelCount-1)/range.size()\<close>, computed before the loop, while
  \<^verbatim>\<open>color\<close> multiplies by \<^verbatim>\<open>mLevelCount-1\<close> and then divides by \<^verbatim>\<open>range.size()\<close>; the two round
  differently. For the grayscale gradient as constructed (350 levels), the range from 0 to 37
  and the value 37, \<^verbatim>\<open>colorize\<close> reads entry 348 of the buffer and writes the gray
  \<open>(254, 254, 254)\<close>, and \<^verbatim>\<open>color\<close> reads entry 349 and returns white.
\<close>
theorem colorize_color_disagree:
  "colorize hsvUnused (newColorGradient gpGrayscale) (Some (\<lambda>i. 37)) \<lparr>lower = 0, upper = 37\<rparr>
       (Some [0]) 1 1 False =
     Some (Some [qRgb 254 254 254], updateColorBuffer hsvUnused (newColorGradient gpGrayscale)) \<and>
   color hsvUnused (newColorGradient gpGrayscale) 37 \<lparr>lower = 0, upper = 37\<rparr> False =
     Some (qRgb 255 255 255, updateColorBuffer hsvUnused (newColorGradient gpGrayscale)) \<and>
   qRgb 254 254 254 \<noteq> qRgb 255 255 255"
proof -
  define g where "g = updateColorBuffer hsvUnused (newColorGradient gpGrayscale)"
  have inv: "mColorBufferInvalidated (newColorGradient gpGrayscale)"
    by (simp add: newColorGradient_gpGrayscale)
  have f: "mLevelCount g = 350" "\<not> mPeriodic g" "length (mColorBuffer g) = 350"
    by (simp_all add: g_def fields_updateColorBuffer length_updateColorBuffer
        newColorGradient_gpGrayscale)
  have b348: "mColorBuffer g ! 348 = qRgb 254 254 254"
    unfolding g_def using grayscale_buffer_nth [of 348] grayscale_level_348 by simp
  have b349: "mColorBuffer g ! 349 = qRgb 255 255 255"
    unfolding g_def using grayscale_buffer_nth [of 349] grayscale_level_349 by simp
  have i1: "colorizeIndex g \<lparr>lower = 0, upper = 37\<rparr> False 37 = 348"
    using colorize_raw_37 by (simp add: colorizeIndex_def f range_size_def Let_def)
  have i2: "colorIndex g 37 \<lparr>lower = 0, upper = 37\<rparr> False = 349"
    using color_raw_37 by (simp add: colorIndex_def colorRawIndex_def f range_size_def Let_def)
  have "colorize hsvUnused (newColorGradient gpGrayscale) (Some (\<lambda>i. 37)) \<lparr>lower = 0, upper = 37\<rparr>
       (Some [0]) 1 1 False = Some (Some [qRgb 254 254 254], g)"
    using inv by (simp add: colorize_def g_def [symmetric] i1 QVector_at_def f b348)
  moreover have "color hsvUnused (newColorGradient gpGrayscale) 37 \<lparr>lower = 0, upper = 37\<rparr> False =
     Some (qRgb 255 255 255, g)"
    using inv by (simp add: color_def g_def [symmetric] i2 QVector_at_def f b349)
  moreover have "qRgb 254 254 254 \<noteq> qRgb 255 255 255" by (simp add: qRgb_def)
  ultimately show ?thesis by (simp add: g_def)
qed

lemma smod_wrap:
  assumes "0 < (l::int)"
  shows "(let index = r smod l in if index < 0 then index + l else index) = r mod l"
proof -
  consider "r = 0" | "0 < r" | "r < 0" "l dvd r" | "r < 0" "\<not> l dvd r" by linarith
  then show ?thesis
  proof cases
    case 1
    then show ?thesis by (simp add: Let_def)
  next
    case 2
    then have "r smod l = r mod l" using assms by (simp add: signed_modulo_int_def)
    moreover have "0 \<le> r mod l" using assms by simp
    ultimately show ?thesis by (simp add: Let_def)
  next
    case 3
    then have "r smod l = 0" "r mod l = 0"
      using assms by (simp_all add: signed_modulo_int_def mod_eq_0_iff_dvd)
    then show ?thesis by (simp add: Let_def)
  next
    case 4
    then have "(- r) mod l \<noteq> 0" by (simp add: mod_eq_0_iff_dvd)
    moreover have "0 \<le> (- r) mod l" using assms by simp
    ultimately have pos: "0 < (- r) mod l" by linarith
    have m: "r mod l = l - (- r) mod l"
      using 4 assms by (metis add.inverse_inverse zmod_zminus1_eq_if mod_eq_0_iff_dvd dvd_minus_iff)
    have "r smod l = - ((- r) mod l)"
      using 4 assms by (simp add: signed_modulo_int_def)
    then show ?thesis using pos m by (simp add: Let_def)
  qed
qed

lemma colorIndex_eq:
  assumes "2 \<le> mLevelCount g"
  shows "colorIndex g p r lg =
     (if mPeriodic g then colorRawIndex g p r lg mod mLevelCount g
      else max 0 (min (mLevelCount g - 1) (colorRawIndex g p r lg)))"
  using assms smod_wrap [of "mLevelCount g" "colorRawIndex g p r lg"]
  by (auto simp: colorIndex_def Let_def)

lemma colorIndex_bounds:
  assumes "2 \<le> mLevelCount g"
  shows "0 \<le> colorIndex g p r lg \<and> colorIndex g p r lg \<le> mLevelCount g - 1"
  using assms by (auto simp: colorIndex_eq)

lemma colorizeIndex_bounds:
  assumes "2 \<le> mLevelCount g"
  shows "0 \<le> colorizeIndex g r lg d \<and> colorizeIndex g r lg d \<le> mLevelCount g - 1"
proof -
  have w: "0 \<le> (let index = x smod mLevelCount g in if index < 0 then index + mLevelCount g else index)
      \<and> (let index = x smod mLevelCount g in if index < 0 then index + mLevelCount g else index)
          \<le> mLevelCount g - 1" for x
    using assms by (simp add: smod_wrap)
  have c: "0 \<le> (let index = x in if index < 0 then 0 else if mLevelCount g \<le> index
                then mLevelCount g - 1 else index)
      \<and> (let index = x in if index < 0 then 0 else if mLevelCount g \<le> index
                then mLevelCount g - 1 else index) \<le> mLevelCount g - 1" for x :: int
    using assms by (simp add: Let_def)
  show ?thesis
  proof (cases lg)
    case True
    then show ?thesis
      by (cases "mPeriodic g") (simp_all only: colorizeIndex_def w c if_True if_False not_True_eq_False)
  next
    case False
    then show ?thesis
      by (cases "mPeriodic g")
        (simp_all only: colorizeIndex_def Let_def [of "ddiv _ _"] w c if_True if_False not_False_eq_True)
  qed
qed

lemma colorIndex_updateColorBuffer:
  "colorIndex (updateColorBuffer qt g) p r lg = colorIndex g p r lg"
  by (simp add: colorIndex_def colorRawIndex_def fields_updateColorBuffer Let_def)

lemma color_returns:
  assumes "2 \<le> mLevelCount g" "bufferSized g"
  shows "\<exists>c. color qt g p r lg =
           Some (c, if mColorBufferInvalidated g then updateColorBuffer qt g else g)"
proof -
  define g' where "g' = (if mColorBufferInvalidated g then updateColorBuffer qt g else g)"
  have l: "mLevelCount g' = mLevelCount g"
    by (simp add: g'_def fields_updateColorBuffer)
  have len: "length (mColorBuffer g') = nat (mLevelCount g)"
    using assms(2) by (auto simp: g'_def length_updateColorBuffer bufferSized_def)
  have "0 \<le> colorIndex g' p r lg \<and> colorIndex g' p r lg \<le> mLevelCount g' - 1"
    using assms(1) l by (intro colorIndex_bounds) simp
  then have "QVector_at (mColorBuffer g') (colorIndex g' p r lg) \<noteq> None"
    using len l by (simp add: QVector_at_def)
  then show ?thesis
    by (auto simp: color_def g'_def [symmetric])
qed

lemma color_again:
  assumes "color qt g p r lg = Some (c, g')"
  shows "color qt g' p r lg = Some (c, g')"
    and "mLevelCount g' = mLevelCount g" "mColorInterpolation g' = mColorInterpolation g"
    and "mPeriodic g' = mPeriodic g" "mColorStops g' = mColorStops g"
proof -
  have g': "g' = (if mColorBufferInvalidated g then updateColorBuffer qt g else g)"
    using assms by (auto simp: color_def Let_def)
  show "mLevelCount g' = mLevelCount g" "mColorInterpolation g' = mColorInterpolation g"
    "mPeriodic g' = mPeriodic g" "mColorStops g' = mColorStops g"
    by (simp_all add: g' fields_updateColorBuffer)
  have v: "\<not> mColorBufferInvalidated g'"
    by (simp add: g' fields_updateColorBuffer)
  have "QVector_at (mColorBuffer g') (colorIndex g' p r lg) = Some c"
    using assms by (auto simp: color_def Let_def g' [symmetric])
  then show "color qt g' p r lg = Some (c, g')"
    using v by (simp add: color_def)
qed

text \<open>
  Claim C8: for a gradient with at least two levels the index with which \<^verbatim>\<open>color\<close> reads the
  buffer is the raw index modulo the level count when the gradient is periodic, and the raw
  index clamped to the range from 0 to the level count minus 1 otherwise; it lies in that range
  in both cases, and so does the index \<^verbatim>\<open>colorize\<close> uses. With the buffer of the size the class
  keeps it at, the read of \<^verbatim>\<open>color\<close> is inside the buffer.
\<close>
theorem color_index_in_bounds:
  assumes "2 \<le> mLevelCount g"
  shows "colorIndex g position rng logarithmic =
           (if mPeriodic g then colorRawIndex g position rng logarithmic mod mLevelCount g
            else max 0 (min (mLevelCount g - 1) (colorRawIndex g position rng logarithmic))) \<and>
         0 \<le> colorIndex g position rng logarithmic \<and>
         colorIndex g position rng logarithmic \<le> mLevelCount g - 1 \<and>
         0 \<le> colorizeIndex g rng logarithmic d \<and>
         colorizeIndex g rng logarithmic d \<le> mLevelCount g - 1 \<and>
         (bufferSized g \<longrightarrow>
            (\<exists>c. color qt g position rng logarithmic =
                   Some (c, if mColorBufferInvalidated g then updateColorBuffer qt g else g)))"
proof -
  have "bufferSized g \<longrightarrow>
      (\<exists>c. color qt g position rng logarithmic =
             Some (c, if mColorBufferInvalidated g then updateColorBuffer qt g else g))"
    using color_returns [OF assms] by (rule impI)
  with colorIndex_eq [OF assms, of position rng logarithmic]
    colorIndex_bounds [OF assms, of position rng logarithmic]
    colorizeIndex_bounds [OF assms, of rng logarithmic d]
  show ?thesis by (intro conjI) (erule conjunct1 conjunct2 | assumption)+
qed

text \<open>
  Claim C10: two gradients are equal exactly when their level counts, interpolation modes,
  periodic flags and stops are equal; the buffer and its flag play no part. A call of
  \<^verbatim>\<open>color\<close> therefore leaves every comparison as it was, and a second call with the same
  arguments on the gradient the first call left returns the same color. A gradient with at
  least two levels and a buffer of the size the class keeps it at does return a color.
\<close>
theorem gradient_eq_ignores_buffer:
  "(gradient_eq g h \<longleftrightarrow>
      mLevelCount h = mLevelCount g \<and> mColorInterpolation h = mColorInterpolation g \<and>
      mPeriodic h = mPeriodic g \<and> mColorStops h = mColorStops g) \<and>
   gradient_eq (g\<lparr>mColorBuffer := b, mColorBufferInvalidated := v\<rparr>) h = gradient_eq g h \<and>
   gradient_eq h (g\<lparr>mColorBuffer := b, mColorBufferInvalidated := v\<rparr>) = gradient_eq h g \<and>
   (\<forall>c g'. color qt g position rng logarithmic = Some (c, g') \<longrightarrow>
      gradient_eq g' h = gradient_eq g h \<and> gradient_eq h g' = gradient_eq h g \<and>
      color qt g' position rng logarithmic = Some (c, g')) \<and>
   (2 \<le> mLevelCount g \<and> bufferSized g \<longrightarrow>
      (\<exists>c g'. color qt g position rng logarithmic = Some (c, g')))"
proof -
  have a: "gradient_eq g h \<longleftrightarrow>
      mLevelCount h = mLevelCount g \<and> mColorInterpolation h = mColorInterpolation g \<and>
      mPeriodic h = mPeriodic g \<and> mColorStops h = mColorStops g"
    by (simp add: gradient_eq_def)
  have b: "gradient_eq (g\<lparr>mColorBuffer := b, mColorBufferInvalidated := v\<rparr>) h = gradient_eq g h"
    by (simp add: gradient_eq_def)
  have c: "gradient_eq h (g\<lparr>mColorBuffer := b, mColorBufferInvalidated := v\<rparr>) = gradient_eq h g"
    by (simp add: gradient_eq_def)
  have d: "\<forall>c g'. color qt g position rng logarithmic = Some (c, g') \<longrightarrow>
      gradient_eq g' h = gradient_eq g h \<and> gradient_eq h g' = gradient_eq h g \<and>
      color qt g' position rng logarithmic = Some (c, g')"
  proof (intro allI impI)
    fix c g'
    assume "color qt g position rng logarithmic = Some (c, g')"
    from color_again [OF this]
    show "gradient_eq g' h = gradient_eq g h \<and> gradient_eq h g' = gradient_eq h g \<and>
      color qt g' position rng logarithmic = Some (c, g')"
      by (simp add: gradient_eq_def)
  qed
  have e: "2 \<le> mLevelCount g \<and> bufferSized g \<longrightarrow>
      (\<exists>c g'. color qt g position rng logarithmic = Some (c, g'))"
  proof
    assume "2 \<le> mLevelCount g \<and> bufferSized g"
    then obtain c where "color qt g position rng logarithmic =
        Some (c, if mColorBufferInvalidated g then updateColorBuffer qt g else g)"
      using color_returns [of g qt position rng logarithmic] by blast
    then show "\<exists>c g'. color qt g position rng logarithmic = Some (c, g')" by blast
  qed
  from a b c d e show ?thesis by (intro conjI)
qed

lemma fold_setColorStopAt:
  "mLevelCount (fold (\<lambda>(position, c) g. setColorStopAt g position c) stops g) = mLevelCount g \<and>
   (stops \<noteq> [] \<longrightarrow>
      mColorBufferInvalidated (fold (\<lambda>(position, c) g. setColorStopAt g position c) stops g))"
proof (induction stops arbitrary: g)
  case Nil
  then show ?case by simp
next
  case (Cons s stops)
  obtain k c where s: "s = (k, c)" by (cases s)
  show ?case
    using Cons.IH [of "setColorStopAt g k c"]
    by (cases "stops = []") (simp_all add: s setColorStopAt_def)
qed

lemma presetStops_nonempty: "presetStops p \<noteq> []"
  by (cases p) simp_all

lemma newColorGradient_invariant:
  "mLevelCount (newColorGradient p) = 350 \<and> bufferSized (newColorGradient p)"
  using fold_setColorStopAt [of "presetStops p"] presetStops_nonempty [of p]
  by (simp add: newColorGradient_def loadPreset_def bufferSized_def setColorInterpolation_def
      clearColorStops_def)

lemma setters_keep_bufferSized:
  assumes "bufferSized g"
  shows "bufferSized (setLevelCount g n)" "bufferSized (setColorStops g m)"
    "bufferSized (setColorStopAt g k c)" "bufferSized (setColorInterpolation g ip)"
    "bufferSized (setPeriodic g e)" "bufferSized (clearColorStops g)"
    "bufferSized (updateColorBuffer qt g)"
  using assms
  by (simp_all add: bufferSized_def setLevelCount_def setColorStops_def setColorStopAt_def
      setColorInterpolation_def setPeriodic_def clearColorStops_def Let_def
      length_updateColorBuffer fields_updateColorBuffer)

lemma setters_keep_levelCount:
  assumes "2 \<le> mLevelCount g"
  shows "2 \<le> mLevelCount (setLevelCount g n)" "2 \<le> mLevelCount (setColorStops g m)"
    "2 \<le> mLevelCount (setColorStopAt g k c)" "2 \<le> mLevelCount (setColorInterpolation g ip)"
    "2 \<le> mLevelCount (setPeriodic g e)" "2 \<le> mLevelCount (clearColorStops g)"
    "2 \<le> mLevelCount (updateColorBuffer qt g)"
  using assms
  by (simp_all add: setLevelCount_def setColorStops_def setColorStopAt_def
      setColorInterpolation_def setPeriodic_def clearColorStops_def Let_def
      fields_updateColorBuffer)

theorem color_index_in_bounds_witness:
  "2 \<le> mLevelCount (newColorGradient gpGrayscale) \<and>
   bufferSized (newColorGradient gpGrayscale) \<and>
   0 \<le> colorIndex (newColorGradient gpGrayscale) 37 \<lparr>lower = 0, upper = 37\<rparr> False \<and>
   colorIndex (newColorGradient gpGrayscale) 37 \<lparr>lower = 0, upper = 37\<rparr> False \<le> 349 \<and>
   (\<exists>c. color hsvUnused (newColorGradient gpGrayscale) 37 \<lparr>lower = 0, upper = 37\<rparr> False =
      Some (c, updateColorBuffer hsvUnused (newColorGradient gpGrayscale)))"
proof -
  have l: "2 \<le> mLevelCount (newColorGradient gpGrayscale)"
    by (simp add: newColorGradient_gpGrayscale)
  have b: "bufferSized (newColorGradient gpGrayscale)"
    by (simp add: newColorGradient_gpGrayscale bufferSized_def)
  show ?thesis
    using color_index_in_bounds [OF l, where position = 37 and rng = "\<lparr>lower = 0, upper = 37\<rparr>"
        and logarithmic = False and d = 0 and qt = hsvUnused] l b
    by (simp add: newColorGradient_gpGrayscale)
qed

theorem gradient_eq_ignores_buffer_witness:
  "2 \<le> mLevelCount (newColorGradient gpGrayscale) \<and>
   bufferSized (newColorGradient gpGrayscale) \<and>
   (\<exists>c g'. color hsvUnused (newColorGradient gpGrayscale) 37 \<lparr>lower = 0, upper = 37\<rparr> False =
        Some (c, g') \<and>
      color hsvUnused g' 37 \<lparr>lower = 0, upper = 37\<rparr> False = Some (c, g') \<and>
      gradient_eq g' (newColorGradient gpGrayscale))"
proof -
  have l: "2 \<le> mLevelCount (newColorGradient gpGrayscale)"
    by (simp add: newColorGradient_gpGrayscale)
  have b: "bufferSized (newColorGradient gpGrayscale)"
    by (simp add: newColorGradient_gpGrayscale bufferSized_def)
  have r: "gradient_eq (newColorGradient gpGrayscale) (newColorGradient gpGrayscale)"
    by (simp add: gradient_eq_def)
  note t = gradient_eq_ignores_buffer [where g = "newColorGradient gpGrayscale"
      and h = "newColorGradient gpGrayscale" and b = "[]" and v = False and qt = hsvUnused
      and position = 37 and rng = "\<lparr>lower = 0, upper = 37\<rparr>" and logarithmic = False]
  from t l b obtain c g' where
    c: "color hsvUnused (newColorGradient gpGrayscale) 37 \<lparr>lower = 0, upper = 37\<rparr> False =
        Some (c, g')"
    by blast
  with t r have "color hsvUnused g' 37 \<lparr>lower = 0, upper = 37\<rparr> False = Some (c, g') \<and>
      gradient_eq g' (newColorGradient gpGrayscale)"
    by blast
  with c l b show ?thesis by blast
qed

lemma double_on_grid:
  assumes "round_double k = k"
  shows "\<exists>n::int. k = of_int n * pow2 (- 1074)"
  using round_double_grid [of k] assms by simp

lemma interpolateRGB_near:
  assumes p: "p = round_double x"
    and k: "round_double (fst low) = fst low" "round_double (fst high) = fst high"
    and ord: "fst low < p" "p \<le> fst high"
    and v: "validColor (snd low)" "validColor (snd high)"
  shows "nearRGB (specFactor p low high) (snd low) (snd high)
           (interpolateRGB (specFactorDouble p low high) (snd low) (snd high))"
proof -
  from round_double_grid [of x] p obtain np :: int where gp: "p = of_int np * pow2 (- 1074)"
    by auto
  from double_on_grid [OF k(1)] obtain nl :: int where gl: "fst low = of_int nl * pow2 (- 1074)"
    by auto
  from double_on_grid [OF k(2)] obtain nh :: int where gh: "fst high = of_int nh * pow2 (- 1074)"
    by auto
  define t where "t = specFactorDouble p low high"
  have t: "t = ddiv (dsub p (fst low)) (dsub (fst high) (fst low))"
    by (simp add: t_def specFactorDouble_def)
  define channel where "channel = (\<lambda>lo hi.
      int_of_double (dadd (dmul (dsub 1 t) (double_of_int lo)) (dmul t (double_of_int hi))))"
  have c: "nearBlend (specFactor p low high) lo hi (channel lo hi) \<and>
      0 \<le> channel lo hi \<and> channel lo hi \<le> 255"
    if "0 \<le> lo" "lo \<le> 255" "0 \<le> hi" "hi \<le> 255" for lo hi
    using blend_channel [OF gp gl gh ord that t refl refl]
    by (simp add: nearBlend_def specBlend_def specFactor_def channel_def)
  have r: "nearBlend (specFactor p low high) (red (snd low)) (red (snd high))
        (channel (red (snd low)) (red (snd high))) \<and>
      0 \<le> channel (red (snd low)) (red (snd high)) \<and>
      channel (red (snd low)) (red (snd high)) \<le> 255"
    using v by (intro c) (simp_all add: validColor_def)
  have g: "nearBlend (specFactor p low high) (green (snd low)) (green (snd high))
        (channel (green (snd low)) (green (snd high))) \<and>
      0 \<le> channel (green (snd low)) (green (snd high)) \<and>
      channel (green (snd low)) (green (snd high)) \<le> 255"
    using v by (intro c) (simp_all add: validColor_def)
  have b: "nearBlend (specFactor p low high) (blue (snd low)) (blue (snd high))
        (channel (blue (snd low)) (blue (snd high))) \<and>
      0 \<le> channel (blue (snd low)) (blue (snd high)) \<and>
      channel (blue (snd low)) (blue (snd high)) \<le> 255"
    using v by (intro c) (simp_all add: validColor_def)
  have i: "interpolateRGB t (snd low) (snd high) =
      qRgb (channel (red (snd low)) (red (snd high)))
        (channel (green (snd low)) (green (snd high)))
        (channel (blue (snd low)) (blue (snd high)))"
    by (simp add: interpolateRGB_def channel_def)
  have q: "qRed (interpolateRGB t (snd low) (snd high)) = channel (red (snd low)) (red (snd high))"
    "qGreen (interpolateRGB t (snd low) (snd high)) = channel (green (snd low)) (green (snd high))"
    "qBlue (interpolateRGB t (snd low) (snd high)) = channel (blue (snd low)) (blue (snd high))"
    unfolding i using r g b by (simp_all add: channels_qRgb)
  show ?thesis
    unfolding t_def [symmetric] nearRGB_def q using r g b i by simp
qed

lemma colorAtPosition_agrees:
  assumes s: "stops \<noteq> []" and v: "ip = ciRGB \<longrightarrow> stopsValid stops" and p: "p = round_double x"
  shows "entryAgrees qt ip stops p (colorAtPosition qt stops ip p)"
proof (cases "specSearch None stops p")
  case NoStop
  with colorAtPosition_search [OF s, where p = p and qt = qt and ip = ip] show ?thesis by simp
next
  case (PastLast c)
  with colorAtPosition_search [OF s, where p = p and qt = qt and ip = ip] show ?thesis by (simp add: entryAgrees_def)
next
  case (AtFirst c)
  with colorAtPosition_search [OF s, where p = p and qt = qt and ip = ip] show ?thesis by (simp add: entryAgrees_def)
next
  case (Between low high)
  with colorAtPosition_search [OF s, where p = p and qt = qt and ip = ip]
  have e: "colorAtPosition qt stops ip p =
      (case ip of
         ciRGB \<Rightarrow> interpolateRGB (specFactorDouble p low high) (snd low) (snd high)
       | ciHSV \<Rightarrow> interpolateHSV qt (specFactorDouble p low high) (snd low) (snd high))"
    and ord: "fst low < p" "p \<le> fst high" and m: "low \<in> set stops" "high \<in> set stops"
    by simp_all
  show ?thesis
  proof (cases ip)
    case ciRGB
    with v have "stopsValid stops" by simp
    with m have k: "round_double (fst low) = fst low" "round_double (fst high) = fst high"
      and c: "validColor (snd low)" "validColor (snd high)"
      by (simp_all add: stopsValid_def list_all_iff)
    from interpolateRGB_near [OF p k ord c] e show ?thesis
      unfolding ciRGB by (simp add: entryAgrees_def Between)
  next
    case ciHSV
    with e show ?thesis
      by (simp add: entryAgrees_def Between interpolateHSV_spec)
  qed
qed

lemma buffer_nth_agrees:
  assumes "2 \<le> length (mColorStops g)"
    and "mColorInterpolation g = ciRGB \<longrightarrow> stopsValid (mColorStops g)"
    and "i < nat (mLevelCount g)"
  shows "entryAgrees qt (mColorInterpolation g) (mColorStops g)
     (dmul (double_of_int (int i)) (ddiv 1 (double_of_int (mLevelCount g - 1))))
     (mColorBuffer (updateColorBuffer qt g) ! i)"
proof -
  have ne: "mColorStops g \<noteq> []" using assms(1) by auto
  have b: "mColorBuffer (updateColorBuffer qt g) ! i =
      colorAtPosition qt (mColorStops g) (mColorInterpolation g)
        (dmul (double_of_int (int i)) (ddiv 1 (double_of_int (mLevelCount g - 1))))"
    using assms(1,3) by (simp add: buffer_updateColorBuffer levelPosition_def)
  show ?thesis
    unfolding b by (rule colorAtPosition_agrees [OF ne assms(2)]) (simp add: dmul_def)
qed

lemma grayscale3_levels:
  "colorAtPosition qt [(0, Qt_black), (1, Qt_white)] ciRGB
     (levelPosition (ddiv 1 (double_of_int (3 - 1))) 0) = qRgb 0 0 0"
  "colorAtPosition qt [(0, Qt_black), (1, Qt_white)] ciRGB
     (levelPosition (ddiv 1 (double_of_int (3 - 1))) 1) = qRgb 127 127 127"
  "colorAtPosition qt [(0, Qt_black), (1, Qt_white)] ciRGB
     (levelPosition (ddiv 1 (double_of_int (3 - 1))) 2) = qRgb 255 255 255"
  by code_simp+

lemma grayscale50_level_49:
  "colorAtPosition qt [(0, Qt_black), (1, Qt_white)] ciRGB
     (levelPosition (ddiv 1 (double_of_int (50 - 1))) 49) = qRgb 254 254 254"
  by code_simp

lemma grayscale50_spec_49:
  "specEntry qt ciRGB [(0, Qt_black), (1, Qt_white)] (specPosition 50 49) = qRgb 255 255 255"
  "specEntry qt ciRGB [(0, Qt_black), (1, Qt_white)]
     (ddiv (double_of_int 49) (double_of_int (50 - 1))) = qRgb 255 255 255"
  by code_simp+

lemma newColorGradient_gpHot:
  "mLevelCount (newColorGradient gpHot) = 350"
  "mColorStops (newColorGradient gpHot) = presetStops gpHot"
  "mColorInterpolation (newColorGradient gpHot) = ciRGB"
  by code_simp+

lemma hot_level_217:
  "colorAtPosition qt (presetStops gpHot) ciRGB
     (levelPosition (ddiv 1 (double_of_int (350 - 1))) 217) = qRgb 254 161 14"
  by code_simp

lemma hot_spec_217:
  "specEntry qt ciRGB (presetStops gpHot) (specPosition 350 217) = qRgb 255 161 14"
  "specEntry qt ciRGB (presetStops gpHot)
     (dmul (double_of_int (int 217)) (ddiv 1 (double_of_int (350 - 1)))) = qRgb 255 161 14"
  by code_simp+

lemma hot_valid: "stopsValid (presetStops gpHot)"
  by code_simp

lemma qRgb_254_255: "qRgb 254 g b \<noteq> qRgb 255 g' b'"
proof
  assume "qRgb 254 g b = qRgb 255 g' b'"
  then have "bit (qRgb 254 g b) 16 = bit (qRgb 255 g' b') 16" by simp
  then show False by (simp add: qRgb_def bit_simps)
qed

lemma grayscale3_buffer:
  "mColorBuffer (updateColorBuffer qt
      (g\<lparr>mLevelCount := 3, mColorStops := [(0, Qt_black), (1, Qt_white)],
         mColorInterpolation := ciRGB\<rparr>)) =
    [qRgb 0 0 0, qRgb 127 127 127, qRgb 255 255 255]"
proof -
  define h where "h = g\<lparr>mLevelCount := 3, mColorStops := [(0, Qt_black), (1, Qt_white)],
         mColorInterpolation := ciRGB\<rparr>"
  have f: "mLevelCount h = 3" "mColorStops h = [(0, Qt_black), (1, Qt_white)]"
    "mColorInterpolation h = ciRGB"
    by (simp_all add: h_def)
  have len: "length (mColorBuffer (updateColorBuffer qt h)) = 3"
    by (simp add: length_updateColorBuffer f)
  have n: "mColorBuffer (updateColorBuffer qt h) ! i =
     colorAtPosition qt [(0, Qt_black), (1, Qt_white)] ciRGB
       (levelPosition (ddiv 1 (double_of_int (3 - 1))) i)" if "i < 3" for i
    using that by (simp add: buffer_updateColorBuffer f)
  have "mColorBuffer (updateColorBuffer qt h) ! 0 = qRgb 0 0 0"
    "mColorBuffer (updateColorBuffer qt h) ! 1 = qRgb 127 127 127"
    "mColorBuffer (updateColorBuffer qt h) ! 2 = qRgb 255 255 255"
    using n [of 0] n [of 1] n [of 2] grayscale3_levels [of qt] by simp_all
  with len have "mColorBuffer (updateColorBuffer qt h) =
      [qRgb 0 0 0, qRgb 127 127 127, qRgb 255 255 255]"
    by (intro nth_equalityI) (auto simp: less_Suc_eq numeral_3_eq_3 numeral_2_eq_2)
  then show ?thesis by (simp add: h_def)
qed

text \<open>
  Claim C2, as amended: the buffer \<^verbatim>\<open>updateColorBuffer\<close> builds has \<^verbatim>\<open>mLevelCount\<close> entries. With
  no stop every entry is black, with one stop every entry is that stop's color. With two or
  more stops entry \<open>i\<close> is determined from the position the code computes, the product of \<open>i\<close>
  and the reciprocal of \<^verbatim>\<open>mLevelCount-1\<close> with each of the two operations rounded to a double,
  by the search of the specification through the stops: past the last stop the entry is the
  color of the last stop, at or before the first stop the color of the first stop. Between two
  stops, in RGB mode and with stops whose positions are doubles and whose channels are in
  \<open>0..255\<close>, every channel of the entry lies between the linear interpolation of the channel
  rounded down, less one, and that interpolation rounded up, where the linear interpolation
  and its factor are those of real numbers; the entry is opaque. In HSV mode the entry is the
  HSV interpolation of the specification with every operation in double arithmetic. For the
  stops black at 0 and white at 1, RGB interpolation and three levels the buffer is black, the
  gray \<open>(127, 127, 127)\<close>, white.
\<close>
theorem updateColorBuffer_entries:
  "length (mColorBuffer (updateColorBuffer qt g)) = nat (mLevelCount g) \<and>
   (mColorStops g = [] \<longrightarrow>
      mColorBuffer (updateColorBuffer qt g) = replicate (nat (mLevelCount g)) (qRgb 0 0 0)) \<and>
   (\<forall>e. mColorStops g = [e] \<longrightarrow>
      mColorBuffer (updateColorBuffer qt g) = replicate (nat (mLevelCount g)) (QColor_rgb (snd e))) \<and>
   (2 \<le> length (mColorStops g) \<and>
    (mColorInterpolation g = ciRGB \<longrightarrow> stopsValid (mColorStops g)) \<longrightarrow>
      (\<forall>i < nat (mLevelCount g).
         entryAgrees qt (mColorInterpolation g) (mColorStops g)
           (dmul (double_of_int (int i)) (ddiv 1 (double_of_int (mLevelCount g - 1))))
           (mColorBuffer (updateColorBuffer qt g) ! i))) \<and>
   mColorBuffer (updateColorBuffer qt
      (g\<lparr>mLevelCount := 3, mColorStops := [(0, Qt_black), (1, Qt_white)],
         mColorInterpolation := ciRGB\<rparr>)) =
    [qRgb 0 0 0, qRgb 127 127 127, qRgb 255 255 255]"
proof (intro conjI allI impI)
  show "length (mColorBuffer (updateColorBuffer qt g)) = nat (mLevelCount g)"
    by (rule length_updateColorBuffer)
  show "mColorBuffer (updateColorBuffer qt g) = replicate (nat (mLevelCount g)) (qRgb 0 0 0)"
    if "mColorStops g = []"
    using that by (simp add: buffer_updateColorBuffer)
  show "mColorBuffer (updateColorBuffer qt g) = replicate (nat (mLevelCount g)) (QColor_rgb (snd e))"
    if "mColorStops g = [e]" for e
    using that by (simp add: buffer_updateColorBuffer)
  show "entryAgrees qt (mColorInterpolation g) (mColorStops g)
           (dmul (double_of_int (int i)) (ddiv 1 (double_of_int (mLevelCount g - 1))))
           (mColorBuffer (updateColorBuffer qt g) ! i)"
    if "2 \<le> length (mColorStops g) \<and>
      (mColorInterpolation g = ciRGB \<longrightarrow> stopsValid (mColorStops g))"
      "i < nat (mLevelCount g)" for i
    using that by (intro buffer_nth_agrees) simp_all
  show "mColorBuffer (updateColorBuffer qt
      (g\<lparr>mLevelCount := 3, mColorStops := [(0, Qt_black), (1, Qt_white)],
         mColorInterpolation := ciRGB\<rparr>)) =
    [qRgb 0 0 0, qRgb 127 127 127, qRgb 255 255 255]"
    by (rule grayscale3_buffer)
qed

lemma grayscale50:
  "setLevelCount (newColorGradient gpGrayscale) 50 =
     \<lparr>mLevelCount = 50, mColorStops = [(0, Qt_black), (1, Qt_white)], mColorInterpolation = ciRGB,
      mPeriodic = False, mColorBuffer = replicate 350 (qRgb 0 0 0), mColorBufferInvalidated = True\<rparr>"
  by (simp add: newColorGradient_gpGrayscale setLevelCount_def)

lemma grayscale50_buffer_49:
  "mColorBuffer (updateColorBuffer qt (setLevelCount (newColorGradient gpGrayscale) 50)) ! 49 =
     qRgb 254 254 254"
  using grayscale50_level_49 [of qt] by (simp add: buffer_updateColorBuffer grayscale50)

lemma hot_buffer_217:
  "mColorBuffer (updateColorBuffer qt (newColorGradient gpHot)) ! 217 = qRgb 254 161 14"
  using hot_level_217 [of qt] by (simp add: buffer_updateColorBuffer newColorGradient_gpHot)

theorem updateColorBuffer_entries_witness:
  "2 \<le> length (mColorStops (newColorGradient gpHot)) \<and>
   mColorInterpolation (newColorGradient gpHot) = ciRGB \<and>
   stopsValid (mColorStops (newColorGradient gpHot)) \<and>
   217 < nat (mLevelCount (newColorGradient gpHot)) \<and>
   mColorBuffer (updateColorBuffer hsvUnused (newColorGradient gpHot)) ! 217 = qRgb 254 161 14 \<and>
   entryAgrees hsvUnused ciRGB (presetStops gpHot)
     (dmul (double_of_int (int 217)) (ddiv 1 (double_of_int (350 - 1)))) (qRgb 254 161 14)"
proof -
  have l: "2 \<le> length (mColorStops (newColorGradient gpHot))"
    unfolding newColorGradient_gpHot by simp
  have m: "mColorInterpolation (newColorGradient gpHot) = ciRGB"
    by (rule newColorGradient_gpHot)
  have v: "stopsValid (mColorStops (newColorGradient gpHot))"
    unfolding newColorGradient_gpHot by (rule hot_valid)
  have i: "217 < nat (mLevelCount (newColorGradient gpHot))"
    unfolding newColorGradient_gpHot by simp
  have b: "mColorBuffer (updateColorBuffer hsvUnused (newColorGradient gpHot)) ! 217 =
      qRgb 254 161 14"
    by (rule hot_buffer_217)
  from updateColorBuffer_entries [of hsvUnused "newColorGradient gpHot"] l v i
  have "entryAgrees hsvUnused (mColorInterpolation (newColorGradient gpHot))
      (mColorStops (newColorGradient gpHot))
      (dmul (double_of_int (int 217))
         (ddiv 1 (double_of_int (mLevelCount (newColorGradient gpHot) - 1))))
      (mColorBuffer (updateColorBuffer hsvUnused (newColorGradient gpHot)) ! 217)"
    by blast
  then have "entryAgrees hsvUnused ciRGB (presetStops gpHot)
     (dmul (double_of_int (int 217)) (ddiv 1 (double_of_int (350 - 1)))) (qRgb 254 161 14)"
    unfolding b newColorGradient_gpHot .
  with l m v i b show ?thesis by (intro conjI)
qed

text \<open>
  Claim C2 as it is stated takes the position of entry \<open>i\<close> to be \<open>i / (levelCount - 1)\<close> and the
  entry between two stops to be their linear interpolation. For the grayscale gradient with 50
  levels and \<open>i = 49\<close> that position is 1, as a quotient of real numbers and as a quotient of
  doubles, for which the specification gives white; the code computes the position
  \<open>49 * (1 / 49)\<close>, which in double arithmetic is below 1, and the entry is the gray
  \<open>(254, 254, 254)\<close>. For the preset \<^verbatim>\<open>gpHot\<close> with its 350 levels, entry 217 lies between two
  stops that both have the red channel 255, so that its linear interpolation has the red
  channel 255 at the position of the specification and at the position of the code alike; the
  code blends in double arithmetic and truncates, and the red channel of the entry is 254.
\<close>
theorem updateColorBuffer_spec_counterexample:
  "mColorBuffer (updateColorBuffer hsvUnused (setLevelCount (newColorGradient gpGrayscale) 50)) ! 49 \<noteq>
     specEntry hsvUnused (mColorInterpolation (setLevelCount (newColorGradient gpGrayscale) 50))
       (mColorStops (setLevelCount (newColorGradient gpGrayscale) 50))
       (specPosition (mLevelCount (setLevelCount (newColorGradient gpGrayscale) 50)) 49) \<and>
   mColorBuffer (updateColorBuffer hsvUnused (setLevelCount (newColorGradient gpGrayscale) 50)) ! 49 \<noteq>
     specEntry hsvUnused (mColorInterpolation (setLevelCount (newColorGradient gpGrayscale) 50))
       (mColorStops (setLevelCount (newColorGradient gpGrayscale) 50))
       (ddiv (double_of_int 49)
          (double_of_int (mLevelCount (setLevelCount (newColorGradient gpGrayscale) 50) - 1))) \<and>
   mColorBuffer (updateColorBuffer hsvUnused (newColorGradient gpHot)) ! 217 \<noteq>
     specEntry hsvUnused (mColorInterpolation (newColorGradient gpHot))
       (mColorStops (newColorGradient gpHot))
       (specPosition (mLevelCount (newColorGradient gpHot)) 217) \<and>
   mColorBuffer (updateColorBuffer hsvUnused (newColorGradient gpHot)) ! 217 \<noteq>
     specEntry hsvUnused (mColorInterpolation (newColorGradient gpHot))
       (mColorStops (newColorGradient gpHot))
       (dmul (double_of_int (int 217))
          (ddiv 1 (double_of_int (mLevelCount (newColorGradient gpHot) - 1))))"
proof -
  have f: "mColorInterpolation (setLevelCount (newColorGradient gpGrayscale) 50) = ciRGB"
    "mColorStops (setLevelCount (newColorGradient gpGrayscale) 50) = [(0, Qt_black), (1, Qt_white)]"
    "mLevelCount (setLevelCount (newColorGradient gpGrayscale) 50) = 50"
    by (simp_all add: grayscale50)
  have a: "mColorBuffer (updateColorBuffer hsvUnused (setLevelCount (newColorGradient gpGrayscale) 50)) ! 49 =
      qRgb 254 254 254"
    by (rule grayscale50_buffer_49)
  have b: "mColorBuffer (updateColorBuffer hsvUnused (newColorGradient gpHot)) ! 217 =
      qRgb 254 161 14"
    by (rule hot_buffer_217)
  have n: "qRgb 254 254 254 \<noteq> qRgb 255 255 255" "qRgb 254 161 14 \<noteq> qRgb 255 161 14"
    by (rule qRgb_254_255)+
  show ?thesis
    unfolding a b f newColorGradient_gpHot grayscale50_spec_49 hot_spec_217
    using n by (intro conjI)
qed

section \<open>Properties of stacking\<close>

lemma links_updBars [simp]:
  "barAbove (updBars s b (mBarAbove_update (\<lambda>_. v))) x = (if x = b then v else barAbove s x)"
  "barBelow (updBars s b (mBarAbove_update (\<lambda>_. v))) x = barBelow s x"
  "barBelow (updBars s b (mBarBelow_update (\<lambda>_. v))) x = (if x = b then v else barBelow s x)"
  "barAbove (updBars s b (mBarBelow_update (\<lambda>_. v))) x = barAbove s x"
  by (simp_all add: updBars_def barAbove_def barBelow_def)

lemma other_updBars [simp]:
  "groupAt (updBars s b f) = groupAt s" "axisAt (updBars s b f) = axisAt s"
  "debugOutput (updBars s b f) = debugOutput s"
  by (simp_all add: updBars_def)

lemma links_disconnectAbove:
  "barAbove (disconnectAbove s l) x = barAbove s x"
  "barBelow (disconnectAbove s l) x =
     (if barAbove s l = Some x \<and> barBelow s x = Some l then None else barBelow s x)"
  by (auto simp: disconnectAbove_def barAbove_def [symmetric] barBelow_def [symmetric]
      split: option.splits)

lemma links_disconnectBelow:
  "barBelow (disconnectBelow s u) x = barBelow s x"
  "barAbove (disconnectBelow s u) x =
     (if barBelow s u = Some x \<and> barAbove s x = Some u then None else barAbove s x)"
  by (auto simp: disconnectBelow_def barAbove_def [symmetric] barBelow_def [symmetric]
      split: option.splits)

lemma consistentD:
  "linksConsistent s \<Longrightarrow> (barAbove s x = Some y) = (barBelow s y = Some x)"
  by (simp add: linksConsistent_def)

lemma consistent_below_inj:
  "linksConsistent s \<Longrightarrow> barBelow s y = Some x \<Longrightarrow> barBelow s z = Some x \<Longrightarrow> y = z"
  by (metis consistentD option.inject)

lemma consistent_above_inj:
  "linksConsistent s \<Longrightarrow> barAbove s y = Some x \<Longrightarrow> barAbove s z = Some x \<Longrightarrow> y = z"
  by (metis consistentD option.inject)

lemma links_connectBars:
  assumes "linksConsistent s"
  shows "barAbove (connectBars s lo up) x =
      (case lo of
         None \<Rightarrow> (case up of None \<Rightarrow> barAbove s x
                   | Some u \<Rightarrow> if barBelow s u = Some x then None else barAbove s x)
       | Some l \<Rightarrow> (case up of None \<Rightarrow> if x = l then None else barAbove s x
                   | Some u \<Rightarrow> if x = l then Some u
                               else if barBelow s u = Some x then None else barAbove s x))"
    and "barBelow (connectBars s lo up) x =
      (case up of
         None \<Rightarrow> (case lo of None \<Rightarrow> barBelow s x
                   | Some l \<Rightarrow> if barAbove s l = Some x then None else barBelow s x)
       | Some u \<Rightarrow> (case lo of None \<Rightarrow> if x = u then None else barBelow s x
                   | Some l \<Rightarrow> if x = u then Some l
                               else if barAbove s l = Some x then None else barBelow s x))"
  using consistentD [OF assms]
  by (auto simp: connectBars_def links_disconnectAbove links_disconnectBelow Let_def
      split: option.splits)

lemma connectBars_consistent:
  assumes "linksConsistent s"
  shows "linksConsistent (connectBars s lo up)"
  unfolding linksConsistent_def
  using consistentD [OF assms] consistent_below_inj [OF assms] consistent_above_inj [OF assms]
  by (auto simp: links_connectBars [OF assms] split: option.splits)

lemma consistent_AB:
  "linksConsistent s \<Longrightarrow> barAbove s x = Some y \<Longrightarrow> barBelow s y = Some x"
  by (simp add: linksConsistent_def)

lemma consistent_BA:
  "linksConsistent s \<Longrightarrow> barBelow s y = Some x \<Longrightarrow> barAbove s x = Some y"
  by (simp add: linksConsistent_def)

lemma detach_above:
  assumes "linksConsistent s" "barAbove s a \<noteq> Some a"
  shows "barAbove (connectBars s (barBelow s a) (barAbove s a)) x =
           (if x = a then None else if barAbove s x = Some a then barAbove s a else barAbove s x)"
proof -
  note AB = consistent_AB [OF assms(1)] and BA = consistent_BA [OF assms(1)]
  note L = links_connectBars(1) [OF assms(1)]
  have nb: "barBelow s a \<noteq> Some a" using assms(2) BA by blast
  define lo where "lo = barBelow s a"
  define up where "up = barAbove s a"
  have up: "up \<noteq> Some a" and lo: "lo \<noteq> Some a" using assms(2) nb by (simp_all add: up_def lo_def)
  have bu: "barBelow s u = Some a" if "up = Some u" for u using that AB by (simp add: up_def)
  consider "x = a" | "x \<noteq> a" "barAbove s x = Some a" | "x \<noteq> a" "barAbove s x \<noteq> Some a"
    by blast
  then have "barAbove (connectBars s lo up) x =
           (if x = a then None else if barAbove s x = Some a then up else barAbove s x)"
  proof cases
    case 1
    show ?thesis
    proof (cases lo)
      case None
      then show ?thesis using 1 bu by (cases up) (simp_all add: L up_def [symmetric])
    next
      case (Some l)
      then have "l \<noteq> a" using lo by simp
      then show ?thesis using 1 Some bu by (cases up) (simp_all add: L up_def [symmetric])
    qed
  next
    case 2
    then have "lo = Some x" using AB by (simp add: lo_def)
    then show ?thesis using 2 by (cases up) (simp_all add: L)
  next
    case 3
    then have nx: "lo \<noteq> Some x" using BA by (auto simp: lo_def)
    have "barBelow s u \<noteq> Some x" if "up = Some u" for u using bu [OF that] 3 by simp
    then show ?thesis using 3 nx by (cases lo; cases up) (simp_all add: L)
  qed
  then show ?thesis by (simp add: lo_def up_def)
qed

lemma detach_below:
  assumes "linksConsistent s" "barAbove s a \<noteq> Some a"
  shows "barBelow (connectBars s (barBelow s a) (barAbove s a)) x =
           (if x = a then None else if barBelow s x = Some a then barBelow s a else barBelow s x)"
proof -
  note AB = consistent_AB [OF assms(1)] and BA = consistent_BA [OF assms(1)]
  note L = links_connectBars(2) [OF assms(1)]
  have nb: "barBelow s a \<noteq> Some a" using assms(2) BA by blast
  define lo where "lo = barBelow s a"
  define up where "up = barAbove s a"
  have up: "up \<noteq> Some a" and lo: "lo \<noteq> Some a" using assms(2) nb by (simp_all add: up_def lo_def)
  have al: "barAbove s l = Some a" if "lo = Some l" for l using that BA by (simp add: lo_def)
  consider "x = a" | "x \<noteq> a" "barBelow s x = Some a" | "x \<noteq> a" "barBelow s x \<noteq> Some a"
    by blast
  then have "barBelow (connectBars s lo up) x =
           (if x = a then None else if barBelow s x = Some a then lo else barBelow s x)"
  proof cases
    case 1
    show ?thesis
    proof (cases up)
      case None
      then show ?thesis using 1 al by (cases lo) (simp_all add: L lo_def [symmetric])
    next
      case (Some u)
      then have "u \<noteq> a" using up by simp
      then show ?thesis using 1 Some al by (cases lo) (simp_all add: L lo_def [symmetric])
    qed
  next
    case 2
    then have "up = Some x" using BA by (simp add: up_def)
    then show ?thesis using 2 by (cases lo) (simp_all add: L)
  next
    case 3
    then have nx: "up \<noteq> Some x" using AB by (auto simp: up_def)
    have "barAbove s l \<noteq> Some x" if "lo = Some l" for l using al [OF that] 3 by simp
    then show ?thesis using 3 nx by (cases lo; cases up) (simp_all add: L)
  qed
  then show ?thesis by (simp add: lo_def up_def)
qed

lemma moveAbove_unfold:
  assumes "a \<noteq> b" "keyAxis s b = keyAxis s a" "valueAxis s b = valueAxis s a"
  shows "moveAbove s a (Some b) =
     (let s1 = connectBars s (barBelow s a) (barAbove s a);
          s2 = (if barAbove s1 b \<noteq> None then connectBars s1 (Some a) (barAbove s1 b) else s1)
      in connectBars s2 (Some b) (Some a))"
  using assms by (auto simp: moveAbove_def keyAxis_def valueAxis_def barBelow_def barAbove_def Let_def)

lemma moveAbove_links:
  assumes c: "linksConsistent s" and ab: "a \<noteq> b"
    and ax: "keyAxis s b = keyAxis s a" "valueAxis s b = valueAxis s a"
  shows "barBelow (moveAbove s a (Some b)) a = Some b"
    and "barAbove (moveAbove s a (Some b)) b = Some a"
    and "linksConsistent (moveAbove s a (Some b))"
proof -
  define s1 where "s1 = connectBars s (barBelow s a) (barAbove s a)"
  define s2 where "s2 = (if barAbove s1 b \<noteq> None then connectBars s1 (Some a) (barAbove s1 b) else s1)"
  have m: "moveAbove s a (Some b) = connectBars s2 (Some b) (Some a)"
    by (simp add: moveAbove_unfold [OF ab ax] s1_def s2_def Let_def)
  have c1: "linksConsistent s1"
    unfolding s1_def by (rule connectBars_consistent [OF c])
  have c2: "linksConsistent s2"
    unfolding s2_def using c1 by (simp add: connectBars_consistent)
  show "barBelow (moveAbove s a (Some b)) a = Some b"
    by (simp add: m links_connectBars [OF c2])
  show "barAbove (moveAbove s a (Some b)) b = Some a"
    by (simp add: m links_connectBars [OF c2])
  show "linksConsistent (moveAbove s a (Some b))"
    unfolding m by (rule connectBars_consistent [OF c2])
qed

lemma moveAbove_displaced:
  assumes c: "linksConsistent s" and ab: "a \<noteq> b" and na: "barAbove s a \<noteq> Some a"
    and ax: "keyAxis s b = keyAxis s a" "valueAxis s b = valueAxis s a"
    and bc: "barAbove s b = Some c" "c \<noteq> a"
  shows "barAbove (moveAbove s a (Some b)) a = Some c"
    and "barBelow (moveAbove s a (Some b)) c = Some a"
proof -
  define s1 where "s1 = connectBars s (barBelow s a) (barAbove s a)"
  define s2 where "s2 = (if barAbove s1 b \<noteq> None then connectBars s1 (Some a) (barAbove s1 b) else s1)"
  have m: "moveAbove s a (Some b) = connectBars s2 (Some b) (Some a)"
    by (simp add: moveAbove_unfold [OF ab ax] s1_def s2_def Let_def)
  have c1: "linksConsistent s1"
    unfolding s1_def by (rule connectBars_consistent [OF c])
  have c2: "linksConsistent s2"
    unfolding s2_def using c1 by (simp add: connectBars_consistent)
  have b1: "barAbove s1 b = Some c"
    using bc ab by (simp add: s1_def detach_above [OF c na])
  have a1: "barAbove s1 a = None" "barBelow s1 a = None"
    by (simp_all add: s1_def detach_above [OF c na] detach_below [OF c na])
  have s2: "s2 = connectBars s1 (Some a) (Some c)"
    by (simp add: s2_def b1)
  have cb: "barBelow s1 c = Some b"
    using b1 consistent_AB [OF c1] by blast
  have l2: "barAbove s2 a = Some c" "barBelow s2 c = Some a" "barAbove s2 b = None"
    "barBelow s2 a = None"
    using bc ab a1 cb by (simp_all add: s2 links_connectBars [OF c1])
  show "barAbove (moveAbove s a (Some b)) a = Some c"
    using bc ab l2 by (simp add: m links_connectBars [OF c2])
  show "barBelow (moveAbove s a (Some b)) c = Some a"
    using bc ab l2 by (simp add: m links_connectBars [OF c2])
qed

lemma links_newPlot [simp]:
  "barAbove (newPlot ax ka va) x = None" "barBelow (newPlot ax ka va) x = None"
  "keyAxis (newPlot ax ka va) x = ka x" "valueAxis (newPlot ax ka va) x = va x"
  by (simp_all add: newPlot_def newBars_def barAbove_def barBelow_def keyAxis_def valueAxis_def)

lemma newPlot_consistent: "linksConsistent (newPlot ax ka va)"
  by (simp add: linksConsistent_def)

lemma axes_updBars_links [simp]:
  "keyAxis (updBars s b (mBarAbove_update f)) x = keyAxis s x"
  "keyAxis (updBars s b (mBarBelow_update f)) x = keyAxis s x"
  "valueAxis (updBars s b (mBarAbove_update f)) x = valueAxis s x"
  "valueAxis (updBars s b (mBarBelow_update f)) x = valueAxis s x"
  by (simp_all add: updBars_def keyAxis_def valueAxis_def)

lemma axes_connectBars [simp]:
  "keyAxis (connectBars s lo up) x = keyAxis s x"
  "valueAxis (connectBars s lo up) x = valueAxis s x"
  by (auto simp: connectBars_def disconnectAbove_def disconnectBelow_def Let_def
      split: option.splits)

lemma axes_moveAbove [simp]:
  "keyAxis (moveAbove s a b) x = keyAxis s x"
  "valueAxis (moveAbove s a b) x = valueAxis s x"
  by (auto simp: moveAbove_def Let_def qDebug_def keyAxis_def [symmetric] valueAxis_def [symmetric]
      split: option.splits)
     (simp_all add: keyAxis_def valueAxis_def)

lemma stackPlot_links:
  "barBelow stackPlot 10 = None" "barAbove stackPlot 10 = Some 11"
  "barBelow stackPlot 11 = Some 10" "barAbove stackPlot 11 = Some 12"
  "barBelow stackPlot 12 = Some 11" "barAbove stackPlot 12 = None"
  "barBelow stackPlot 13 = None" "barAbove stackPlot 13 = None"
  by code_simp+

lemma stackPlot_axes:
  "keyAxis stackPlot x = (if x = 14 then Some 22 else Some 20)"
  "valueAxis stackPlot x = (if x = 14 then Some 23 else Some 21)"
  by (simp_all add: stackPlot_def)

lemma stackPlot_consistent: "linksConsistent stackPlot"
  unfolding stackPlot_def
  by (intro moveAbove_links(3) newPlot_consistent) simp_all

lemma moveBelow_None: "moveBelow s a None = connectBars s (barBelow s a) (barAbove s a)"
  by (simp add: moveBelow_def barBelow_def barAbove_def)

lemma detach_removed:
  assumes "linksConsistent s" "barAbove s a \<noteq> Some a"
  shows "removedFromStack s a (connectBars s (barBelow s a) (barAbove s a))"
proof -
  have na: "barBelow s a \<noteq> Some a"
    using assms consistent_BA by blast
  have "barAbove (connectBars s (barBelow s a) (barAbove s a)) l = Some u \<and>
        barBelow (connectBars s (barBelow s a) (barAbove s a)) u = Some l"
    if "barBelow s a = Some l" "barAbove s a = Some u" for l u
    using that by (simp add: links_connectBars [OF assms(1)])
  then show ?thesis
    by (simp add: removedFromStack_def detach_above [OF assms] detach_below [OF assms])
qed

lemma links_setBarsGroup [simp]:
  "barAbove (setBarsGroup s b g) x = barAbove s x" "barBelow (setBarsGroup s b g) x = barBelow s x"
  by (auto simp: setBarsGroup_def registerBars_def unregisterBars_def updGroup_def updBars_def
      barAbove_def barBelow_def Let_def split: option.splits)

lemma setBarsGroup_consistent: "linksConsistent (setBarsGroup s b g) = linksConsistent s"
  by (simp add: linksConsistent_def)

lemma links_destructor:
  "barAbove (QCPBars_destructor s a) x =
     (let r = connectBars (setBarsGroup s a None) (barBelow s a) (barAbove s a)
      in if barAbove r x = Some a then None else barAbove r x)"
  "barBelow (QCPBars_destructor s a) x =
     (let r = connectBars (setBarsGroup s a None) (barBelow s a) (barAbove s a)
      in if barBelow r x = Some a then None else barBelow r x)"
proof -
  define s0 where "s0 = setBarsGroup s a None"
  have l: "mBarBelow (barsAt s0 a) = barBelow s a" "mBarAbove (barsAt s0 a) = barAbove s a"
    using links_setBarsGroup [of s a None a] by (simp_all add: s0_def barAbove_def barBelow_def)
  have r: "(if barBelow s a \<noteq> None \<or> barAbove s a \<noteq> None
            then connectBars s0 (barBelow s a) (barAbove s a) else s0) =
           connectBars s0 (barBelow s a) (barAbove s a)"
    by (auto simp: connectBars_def)
  show "barAbove (QCPBars_destructor s a) x =
     (let r = connectBars (setBarsGroup s a None) (barBelow s a) (barAbove s a)
      in if barAbove r x = Some a then None else barAbove r x)"
    unfolding QCPBars_destructor_def s0_def [symmetric] Let_def l r
    by (simp add: barAbove_def clearPointersTo_def)
  show "barBelow (QCPBars_destructor s a) x =
     (let r = connectBars (setBarsGroup s a None) (barBelow s a) (barAbove s a)
      in if barBelow r x = Some a then None else barBelow r x)"
    unfolding QCPBars_destructor_def s0_def [symmetric] Let_def l r
    by (simp add: barBelow_def clearPointersTo_def)
qed

lemma destructor_removed:
  assumes "linksConsistent s" "barAbove s a \<noteq> Some a"
  shows "removedFromStack s a (QCPBars_destructor s a)"
proof -
  define s0 where "s0 = setBarsGroup s a None"
  have c0: "linksConsistent s0" "barAbove s0 a \<noteq> Some a"
    using assms by (simp_all add: s0_def setBarsGroup_consistent)
  have e: "barBelow s a = barBelow s0 a" "barAbove s a = barAbove s0 a"
    by (simp_all add: s0_def)
  have nb: "barBelow s0 a \<noteq> Some a"
    using c0 consistent_BA by blast
  define r where "r = connectBars s0 (barBelow s0 a) (barAbove s0 a)"
  have A: "barAbove r x \<noteq> Some a" for x
    using c0(2) by (simp add: r_def detach_above [OF c0])
  have B: "barBelow r x \<noteq> Some a" for x
    using nb by (simp add: r_def detach_below [OF c0])
  have d: "barAbove (QCPBars_destructor s a) x = barAbove r x"
    "barBelow (QCPBars_destructor s a) x = barBelow r x" for x
    using A [of x] B [of x]
    by (simp_all add: links_destructor Let_def s0_def [symmetric] e r_def [symmetric])
  have "removedFromStack s0 a r"
    unfolding r_def by (rule detach_removed [OF c0])
  then show ?thesis
    by (simp add: removedFromStack_def d s0_def)
qed

lemma links_qDebug [simp]:
  "barAbove (qDebug s m) x = barAbove s x" "barBelow (qDebug s m) x = barBelow s x"
  by (simp_all add: qDebug_def barAbove_def barBelow_def)

lemma qDebug_consistent: "linksConsistent (qDebug s m) = linksConsistent s"
  by (simp add: linksConsistent_def)

lemma moveBelow_consistent:
  assumes "linksConsistent s"
  shows "linksConsistent (moveBelow s a bars)"
proof -
  define s1 where "s1 = connectBars s (mBarBelow (barsAt s a)) (mBarAbove (barsAt s a))"
  have c1: "linksConsistent s1"
    unfolding s1_def by (rule connectBars_consistent [OF assms])
  have c2: "linksConsistent (if mBarBelow (barsAt s1 b) \<noteq> None
      then connectBars s1 (mBarBelow (barsAt s1 b)) (Some a) else s1)" for b
    using c1 by (simp add: connectBars_consistent)
  show ?thesis
    using assms c1 c2
    by (simp add: moveBelow_def s1_def [symmetric] qDebug_consistent connectBars_consistent Let_def
        split: option.splits)
qed

lemma moveAbove_consistent:
  assumes "linksConsistent s"
  shows "linksConsistent (moveAbove s a bars)"
proof -
  define s1 where "s1 = connectBars s (mBarBelow (barsAt s a)) (mBarAbove (barsAt s a))"
  have c1: "linksConsistent s1"
    unfolding s1_def by (rule connectBars_consistent [OF assms])
  have c2: "linksConsistent (if mBarAbove (barsAt s1 b) \<noteq> None
      then connectBars s1 (Some a) (mBarAbove (barsAt s1 b)) else s1)" for b
    using c1 by (simp add: connectBars_consistent)
  show ?thesis
    using assms c1 c2
    by (simp add: moveAbove_def s1_def [symmetric] qDebug_consistent connectBars_consistent Let_def
        split: option.splits)
qed

lemma destructor_consistent:
  assumes "linksConsistent s"
  shows "linksConsistent (QCPBars_destructor s a)"
proof -
  define s0 where "s0 = setBarsGroup s a None"
  have c0: "linksConsistent s0"
    using assms by (simp add: s0_def setBarsGroup_consistent)
  define r where "r = connectBars s0 (barBelow s a) (barAbove s a)"
  have cr: "linksConsistent r"
    unfolding r_def by (rule connectBars_consistent [OF c0])
  have d: "barAbove (QCPBars_destructor s a) x = (if barAbove r x = Some a then None else barAbove r x)"
    "barBelow (QCPBars_destructor s a) x = (if barBelow r x = Some a then None else barBelow r x)" for x
    by (simp_all add: links_destructor Let_def s0_def [symmetric] r_def [symmetric])
  have e: "barBelow s a = barBelow s0 a" "barAbove s a = barAbove s0 a"
    by (simp_all add: s0_def)
  have ra: "barAbove r a = None \<or> barAbove r a = Some a"
    unfolding r_def e
    using consistentD [OF c0] consistent_below_inj [OF c0] consistent_above_inj [OF c0]
    by (auto simp: links_connectBars [OF c0] split: option.splits)
  have rb: "barBelow r a = None \<or> barBelow r a = Some a"
    unfolding r_def e
    using consistentD [OF c0] consistent_below_inj [OF c0] consistent_above_inj [OF c0]
    by (auto simp: links_connectBars [OF c0] split: option.splits)
  show ?thesis
    unfolding linksConsistent_def
  proof (intro allI)
    fix x y
    show "(barAbove (QCPBars_destructor s a) x = Some y) = (barBelow (QCPBars_destructor s a) y = Some x)"
      using consistentD [OF cr, of x y] ra rb by (auto simp: d)
  qed
qed

text \<open>
  Claim C4: in a plot whose stacking links are consistent, for a series \<open>a\<close> that is not linked
  to itself and a different series \<open>b\<close> on the same key and value axes, after
  \<^verbatim>\<open>a.moveAbove(b)\<close> the series below \<open>a\<close> is \<open>b\<close> and the series above \<open>b\<close> is \<open>a\<close>, and a series
  \<open>c\<close> that was above \<open>b\<close> is now directly above \<open>a\<close>. After \<^verbatim>\<open>a.moveBelow(0)\<close>, and after the
  destruction of \<open>a\<close>, the series that were directly below and above \<open>a\<close> are linked to each
  other and every other link is as it was. Each of the three operations leaves the links
  consistent.
\<close>
theorem stacking_moves:
  assumes "linksConsistent s" "barAbove s a \<noteq> Some a"
  shows "(a \<noteq> b \<and> keyAxis s b = keyAxis s a \<and> valueAxis s b = valueAxis s a \<longrightarrow>
            barBelow (moveAbove s a (Some b)) a = Some b \<and>
            barAbove (moveAbove s a (Some b)) b = Some a \<and>
            (\<forall>c. barAbove s b = Some c \<and> c \<noteq> a \<longrightarrow>
                 barAbove (moveAbove s a (Some b)) a = Some c \<and>
                 barBelow (moveAbove s a (Some b)) c = Some a)) \<and>
         removedFromStack s a (moveBelow s a None) \<and>
         removedFromStack s a (QCPBars_destructor s a) \<and>
         linksConsistent (moveAbove s a (Some b)) \<and>
         linksConsistent (moveBelow s a None) \<and>
         linksConsistent (QCPBars_destructor s a)"
proof (intro conjI impI allI)
  assume h: "a \<noteq> b \<and> keyAxis s b = keyAxis s a \<and> valueAxis s b = valueAxis s a"
  then have ab: "a \<noteq> b" and k: "keyAxis s b = keyAxis s a" and v: "valueAxis s b = valueAxis s a"
    by simp_all
  show "barBelow (moveAbove s a (Some b)) a = Some b"
    by (rule moveAbove_links(1) [OF assms(1) ab k v])
  show "barAbove (moveAbove s a (Some b)) b = Some a"
    by (rule moveAbove_links(2) [OF assms(1) ab k v])
  fix c
  assume c: "barAbove s b = Some c \<and> c \<noteq> a"
  show "barAbove (moveAbove s a (Some b)) a = Some c"
    using c by (intro moveAbove_displaced(1) [OF assms(1) ab assms(2) k v]) simp_all
  show "barBelow (moveAbove s a (Some b)) c = Some a"
    using c by (intro moveAbove_displaced(2) [OF assms(1) ab assms(2) k v]) simp_all
next
  show "removedFromStack s a (moveBelow s a None)"
    unfolding moveBelow_None by (rule detach_removed [OF assms])
  show "removedFromStack s a (QCPBars_destructor s a)"
    by (rule destructor_removed [OF assms])
  show "linksConsistent (moveAbove s a (Some b))"
    by (rule moveAbove_consistent [OF assms(1)])
  show "linksConsistent (moveBelow s a None)"
    by (rule moveBelow_consistent [OF assms(1)])
  show "linksConsistent (QCPBars_destructor s a)"
    by (rule destructor_consistent [OF assms(1)])
qed

theorem stacking_moves_witness:
  "linksConsistent stackPlot \<and> barAbove stackPlot 13 \<noteq> Some 13 \<and>
   barAbove stackPlot 11 \<noteq> Some 11 \<and> barAbove stackPlot 10 = Some 11 \<and>
   barBelow (moveAbove stackPlot 13 (Some 10)) 13 = Some 10 \<and>
   barAbove (moveAbove stackPlot 13 (Some 10)) 10 = Some 13 \<and>
   barAbove (moveAbove stackPlot 13 (Some 10)) 13 = Some 11 \<and>
   barBelow (moveAbove stackPlot 13 (Some 10)) 11 = Some 13 \<and>
   barAbove (moveBelow stackPlot 11 None) 10 = Some 12 \<and>
   barBelow (moveBelow stackPlot 11 None) 12 = Some 10 \<and>
   barAbove (QCPBars_destructor stackPlot 11) 10 = Some 12 \<and>
   barBelow (QCPBars_destructor stackPlot 11) 12 = Some 10"
proof -
  have n3: "barAbove stackPlot 13 \<noteq> Some 13" and n1: "barAbove stackPlot 11 \<noteq> Some 11"
    by (simp_all add: stackPlot_links)
  have m: "barBelow (moveAbove stackPlot 13 (Some 10)) 13 = Some 10 \<and>
      barAbove (moveAbove stackPlot 13 (Some 10)) 10 = Some 13 \<and>
      barAbove (moveAbove stackPlot 13 (Some 10)) 13 = Some 11 \<and>
      barBelow (moveAbove stackPlot 13 (Some 10)) 11 = Some 13"
    using stacking_moves [OF stackPlot_consistent n3, of 10]
    by (simp add: stackPlot_axes stackPlot_links)
  have r: "barAbove (moveBelow stackPlot 11 None) 10 = Some 12 \<and>
      barBelow (moveBelow stackPlot 11 None) 12 = Some 10 \<and>
      barAbove (QCPBars_destructor stackPlot 11) 10 = Some 12 \<and>
      barBelow (QCPBars_destructor stackPlot 11) 12 = Some 10"
    using stacking_moves [OF stackPlot_consistent n1, of 10]
    by (simp add: removedFromStack_def stackPlot_links)
  show ?thesis
    using m r n3 n1 stackPlot_consistent by (simp add: stackPlot_links)
qed

text \<open>
  Claim C9: when \<open>b\<close> has a key axis or a value axis other than that of \<open>a\<close>, \<^verbatim>\<open>a.moveBelow(b)\<close>
  and \<^verbatim>\<open>a.moveAbove(b)\<close> add the diagnostic to the debug output and change nothing else: every
  series and every group is as before. For every series \<open>a\<close>, whatever its axes,
  \<^verbatim>\<open>a.moveBelow(a)\<close> and \<^verbatim>\<open>a.moveAbove(a)\<close> leave the plot as it is.
\<close>
theorem move_axis_mismatch:
  "(keyAxis s b \<noteq> keyAxis s a \<or> valueAxis s b \<noteq> valueAxis s a \<longrightarrow>
      moveBelow s a (Some b) = qDebug s axisMismatch \<and>
      moveAbove s a (Some b) = qDebug s axisMismatch) \<and>
   barsAt (qDebug s axisMismatch) = barsAt s \<and>
   groupAt (qDebug s axisMismatch) = groupAt s \<and>
   (\<forall>x. barBelow (qDebug s axisMismatch) x = barBelow s x \<and>
        barAbove (qDebug s axisMismatch) x = barAbove s x) \<and>
   debugOutput (qDebug s axisMismatch) = debugOutput s @ [axisMismatch] \<and>
   moveBelow s a (Some a) = s \<and> moveAbove s a (Some a) = s"
proof -
  have m: "moveBelow s a (Some b) = qDebug s axisMismatch \<and>
      moveAbove s a (Some b) = qDebug s axisMismatch"
    if h: "keyAxis s b \<noteq> keyAxis s a \<or> valueAxis s b \<noteq> valueAxis s a"
  proof -
    have ne: "b \<noteq> a" using h by auto
    show ?thesis
      using h ne by (auto simp: moveBelow_def moveAbove_def keyAxis_def valueAxis_def)
  qed
  have q: "barsAt (qDebug s axisMismatch) = barsAt s" "groupAt (qDebug s axisMismatch) = groupAt s"
    "debugOutput (qDebug s axisMismatch) = debugOutput s @ [axisMismatch]"
    by (simp_all add: qDebug_def)
  have l: "\<forall>x. barBelow (qDebug s axisMismatch) x = barBelow s x \<and>
        barAbove (qDebug s axisMismatch) x = barAbove s x"
    by (simp add: qDebug_def barBelow_def barAbove_def)
  have self: "moveBelow s a (Some a) = s" "moveAbove s a (Some a) = s"
    by (simp_all add: moveBelow_def moveAbove_def)
  have i: "keyAxis s b \<noteq> keyAxis s a \<or> valueAxis s b \<noteq> valueAxis s a \<longrightarrow>
      moveBelow s a (Some b) = qDebug s axisMismatch \<and>
      moveAbove s a (Some b) = qDebug s axisMismatch"
    using m by (rule impI)
  from i q(1,2) l q(3) self show ?thesis by (intro conjI)
qed

theorem move_axis_mismatch_witness:
  "keyAxis stackPlot 14 \<noteq> keyAxis stackPlot 11 \<and>
   moveAbove stackPlot 11 (Some 14) = qDebug stackPlot axisMismatch \<and>
   moveBelow stackPlot 11 (Some 14) = qDebug stackPlot axisMismatch \<and>
   barBelow (moveAbove stackPlot 11 (Some 14)) 11 = Some 10 \<and>
   barAbove (moveBelow stackPlot 11 (Some 14)) 11 = Some 12 \<and>
   moveAbove stackPlot 11 (Some 11) = stackPlot \<and>
   moveBelow stackPlot 10 (Some 10) = stackPlot"
proof -
  have h: "keyAxis stackPlot 14 \<noteq> keyAxis stackPlot 11"
    by (simp add: stackPlot_axes)
  show ?thesis
    using move_axis_mismatch [where s = stackPlot and a = 11 and b = 14]
      move_axis_mismatch [where s = stackPlot and a = 10 and b = 10] h
    by (simp add: stackPlot_links)
qed

section \<open>Properties of group membership\<close>

lemma group_setBarsGroup:
  "mBarsGroup (barsAt (setBarsGroup s b g) x) = (if x = b then g else mBarsGroup (barsAt s x))"
  by (auto simp: setBarsGroup_def registerBars_def unregisterBars_def updGroup_def updBars_def
      Let_def split: option.splits)

lemma members_setBarsGroup:
  "mBars (groupAt (setBarsGroup s b g) h) =
     (let m = (if mBarsGroup (barsAt s b) = Some h then remove1 b (mBars (groupAt s h))
               else mBars (groupAt s h))
      in if g = Some h \<and> b \<notin> set m then m @ [b] else m)"
  by (auto simp: setBarsGroup_def registerBars_def unregisterBars_def updGroup_def updBars_def
      Let_def split: option.splits)

lemma setBarsGroup_membership:
  assumes "membershipConsistent s"
  shows "membershipConsistent (setBarsGroup s b g)"
proof -
  have m: "mBarsGroup (barsAt s x) = Some h \<longleftrightarrow> x \<in> set (mBars (groupAt s h))" for x h
    using assms by (simp add: membershipConsistent_def)
  have d: "distinct (mBars (groupAt s h))" for h
    using assms by (simp add: membershipConsistent_def)
  have "mBarsGroup (barsAt (setBarsGroup s b g) x) = Some h \<longleftrightarrow>
        x \<in> set (mBars (groupAt (setBarsGroup s b g) h))" for x h
    using m [of x h] m [of b h] d [of h]
    by (auto simp: group_setBarsGroup members_setBarsGroup Let_def)
  moreover have "distinct (mBars (groupAt (setBarsGroup s b g) h))" for h
    using d [of h] by (auto simp: members_setBarsGroup Let_def)
  ultimately show ?thesis
    by (simp add: membershipConsistent_def)
qed

lemma qDebug_membership [simp]: "membershipConsistent (qDebug s m) = membershipConsistent s"
  by (simp add: membershipConsistent_def qDebug_def)

lemma takeWhile_index:
  "x \<in> set xs \<Longrightarrow>
     length (takeWhile (\<lambda>y. y \<noteq> x) xs) < length xs \<and>
     xs ! length (takeWhile (\<lambda>y. y \<noteq> x) xs) = x"
  by (induction xs) auto

lemma QList_move_set:
  assumes "x \<in> set xs" "distinct xs"
  shows "set (QList_move xs (QList_indexOf xs x) to) = set xs"
    and "distinct (QList_move xs (QList_indexOf xs x) to)"
proof -
  define i where "i = length (takeWhile (\<lambda>y. y \<noteq> x) xs)"
  have i: "i < length xs" "xs ! i = x"
    using takeWhile_index [OF assms(1)] by (simp_all add: i_def)
  have idx: "nat (QList_indexOf xs x) = i"
    using assms(1) by (simp add: QList_indexOf_def i_def)
  define ys where "ys = take i xs @ drop (Suc i) xs"
  have xs: "xs = take i xs @ x # drop (Suc i) xs"
    using i id_take_nth_drop [of i xs] by metis
  have "distinct (take i xs @ x # drop (Suc i) xs)"
    using assms(2) xs by metis
  then have dy: "distinct ys" and ny: "x \<notin> set ys"
    by (auto simp: ys_def)
  have "set xs = set (take i xs @ x # drop (Suc i) xs)"
    using xs by metis
  then have sy: "set xs = insert x (set ys)"
    by (simp add: ys_def)
  have split: "ys = take (nat to) ys @ drop (nat to) ys" by simp
  have mv: "QList_move xs (QList_indexOf xs x) to = take (nat to) ys @ x # drop (nat to) ys"
    by (simp add: QList_move_def idx i ys_def Let_def)
  have "set (take (nat to) ys @ x # drop (nat to) ys) = insert x (set ys)"
    using set_append [of "take (nat to) ys" "drop (nat to) ys"] by (simp del: set_append) auto
  then show "set (QList_move xs (QList_indexOf xs x) to) = set xs"
    by (simp add: mv sy)
  have "distinct (take (nat to) ys @ x # drop (nat to) ys)"
    using dy ny distinct_append [of "take (nat to) ys" "drop (nat to) ys"]
    by (auto dest: in_set_takeD in_set_dropD)
  then show "distinct (QList_move xs (QList_indexOf xs x) to)"
    by (simp add: mv)
qed

lemma append_membership:
  "membershipConsistent s \<Longrightarrow> membershipConsistent (QCPBarsGroup_append s g bars)"
  by (simp add: QCPBarsGroup_append_def setBarsGroup_membership split: option.splits)

lemma remove_membership:
  "membershipConsistent s \<Longrightarrow> membershipConsistent (QCPBarsGroup_remove s g bars)"
  by (simp add: QCPBarsGroup_remove_def setBarsGroup_membership split: option.splits)

lemma clear_fold_membership:
  "membershipConsistent s \<Longrightarrow>
     membershipConsistent (fold (\<lambda>bars s. setBarsGroup s bars None) bs s)"
  by (induction bs arbitrary: s) (simp_all add: setBarsGroup_membership)

lemma clear_membership:
  "membershipConsistent s \<Longrightarrow> membershipConsistent (QCPBarsGroup_clear s g)"
  by (simp add: QCPBarsGroup_clear_def clear_fold_membership)

lemma updGroup_members_membership:
  assumes "membershipConsistent s" "set m = set (mBars (groupAt s g))" "distinct m"
  shows "membershipConsistent (updGroup s g (\<lambda>x. x\<lparr>mBars := m\<rparr>))"
  using assms by (auto simp: membershipConsistent_def updGroup_def)

lemma insert_membership:
  assumes "membershipConsistent s"
  shows "membershipConsistent (QCPBarsGroup_insert s g i bars)"
proof (cases bars)
  case None
  then show ?thesis using assms by (simp add: QCPBarsGroup_insert_def)
next
  case (Some b)
  define s1 where "s1 = (if b \<notin> set (mBars (groupAt s g)) then setBarsGroup s b (Some g) else s)"
  have c1: "membershipConsistent s1"
    using assms by (simp add: s1_def setBarsGroup_membership)
  have "mBarsGroup (barsAt s1 b) = Some g"
    using assms by (auto simp: s1_def group_setBarsGroup membershipConsistent_def)
  then have inb: "b \<in> set (mBars (groupAt s1 g))"
    using c1 by (simp add: membershipConsistent_def)
  have d: "distinct (mBars (groupAt s1 g))"
    using c1 by (simp add: membershipConsistent_def)
  have e: "QCPBarsGroup_insert s g i bars =
      updGroup s1 g (\<lambda>x. x\<lparr>mBars := QList_move (mBars (groupAt s1 g))
         (QList_indexOf (mBars (groupAt s1 g)) b)
         (qBound 0 i (int (length (mBars (groupAt s1 g))) - 1))\<rparr>)"
    by (simp add: QCPBarsGroup_insert_def Some s1_def Let_def updGroup_def)
  show ?thesis
    unfolding e
    by (rule updGroup_members_membership [OF c1])
       (simp_all add: QList_move_set [OF inb d])
qed

lemma membership_updBars_links:
  "membershipConsistent (s\<lparr>barsAt := f\<rparr>) = membershipConsistent s"
  if "\<And>x. mBarsGroup (f x) = mBarsGroup (barsAt s x)"
  using that by (simp add: membershipConsistent_def)

lemma group_connectBars [simp]:
  "mBarsGroup (barsAt (connectBars s lo up) x) = mBarsGroup (barsAt s x)"
  "groupAt (connectBars s lo up) = groupAt s"
  by (auto simp: connectBars_def disconnectAbove_def disconnectBelow_def updBars_def Let_def
      split: option.splits)

lemma destructor_membership:
  assumes "membershipConsistent s"
  shows "membershipConsistent (QCPBars_destructor s b)"
proof -
  have "membershipConsistent (setBarsGroup s b None)"
    using assms by (rule setBarsGroup_membership)
  then show ?thesis
    by (simp add: QCPBars_destructor_def Let_def membershipConsistent_def clearPointersTo_def)
qed

text \<open>
  Claim C6: consistent membership is kept by \<^verbatim>\<open>append\<close>, \<^verbatim>\<open>insert\<close>, \<^verbatim>\<open>remove\<close> and
  \<^verbatim>\<open>clear\<close> of a group, by \<^verbatim>\<open>setBarsGroup\<close>, and by the destructors of a group and of a series.
  Where membership is consistent a series is in the member list of at most one group.
\<close>
theorem membership_preserved:
  assumes "membershipConsistent s"
  shows "membershipConsistent (QCPBarsGroup_append s g bars) \<and>
         membershipConsistent (QCPBarsGroup_insert s g i bars) \<and>
         membershipConsistent (QCPBarsGroup_remove s g bars) \<and>
         membershipConsistent (QCPBarsGroup_clear s g) \<and>
         membershipConsistent (setBarsGroup s b barsGroup) \<and>
         membershipConsistent (QCPBarsGroup_destructor s g) \<and>
         membershipConsistent (QCPBars_destructor s b) \<and>
         (\<forall>x h h'. x \<in> set (mBars (groupAt s h)) \<and> x \<in> set (mBars (groupAt s h')) \<longrightarrow> h = h')"
proof -
  have "h = h'" if "x \<in> set (mBars (groupAt s h)) \<and> x \<in> set (mBars (groupAt s h'))" for x h h'
  proof -
    from that assms have "mBarsGroup (barsAt s x) = Some h" "mBarsGroup (barsAt s x) = Some h'"
      by (simp_all add: membershipConsistent_def)
    then show ?thesis by simp
  qed
  then show ?thesis
    using assms
    by (simp add: append_membership insert_membership remove_membership clear_membership
        setBarsGroup_membership destructor_membership QCPBarsGroup_destructor_def)
qed

lemma newPlot_membership: "membershipConsistent (newPlot ax ka va)"
  by (simp add: membershipConsistent_def newPlot_def newBars_def newBarsGroup_def)

lemma groupPlot_membership: "membershipConsistent (groupPlot k)"
  unfolding groupPlot_def by (intro append_membership newPlot_membership)

lemma groupPlot_members:
  "mBars (groupAt (groupPlot k) 0) = [10, 11, 12]"
  by (simp add: groupPlot_def QCPBarsGroup_append_def members_setBarsGroup group_setBarsGroup
      Let_def newPlot_def newBars_def newBarsGroup_def)

lemma groupPlot_insert:
  "mBars (groupAt (QCPBarsGroup_insert (groupPlot k) 0 0 (Some 12)) 0) = [12, 10, 11]"
  by (simp add: QCPBarsGroup_insert_def groupPlot_members updGroup_def QList_move_def
      QList_indexOf_def qBound_def Let_def)

theorem membership_preserved_witness:
  "membershipConsistent (groupPlot 20) \<and>
   mBars (groupAt (groupPlot 20) 0) = [10, 11, 12] \<and>
   membershipConsistent (QCPBarsGroup_insert (groupPlot 20) 0 0 (Some 12)) \<and>
   mBars (groupAt (QCPBarsGroup_insert (groupPlot 20) 0 0 (Some 12)) 0) = [12, 10, 11] \<and>
   membershipConsistent (QCPBarsGroup_remove (groupPlot 20) 0 (Some 11)) \<and>
   membershipConsistent (QCPBarsGroup_destructor (groupPlot 20) 0)"
  using membership_preserved [where s = "groupPlot 20" and g = 0 and i = 0 and bars = "Some 12",
      OF groupPlot_membership]
    membership_preserved [where s = "groupPlot 20" and g = 0 and bars = "Some 11",
      OF groupPlot_membership]
    groupPlot_membership
  by (simp add: groupPlot_members groupPlot_insert)

section \<open>Properties of stacked values\<close>

lemma getStackedBaseValue_bottom:
  "mBarBelow (barsAt s b) = None \<Longrightarrow> getStackedBaseValue s b k p = Some (mBaseValue (barsAt s b))"
  by (subst getStackedBaseValue.simps) simp

lemma getStackedBaseValue_above:
  "mBarBelow (barsAt s b) = Some below \<Longrightarrow>
     getStackedBaseValue s b k p =
       Option.bind (getStackedBaseValue s below k p)
         (\<lambda>r. Some (dadd (stackedMax (mDataContainer (barsAt s below)) k p) r))"
  by (subst getStackedBaseValue.simps) simp

lemma getStackedBaseValue_returns:
  "stackEnds s b n \<Longrightarrow> \<exists>r. getStackedBaseValue s b k p = Some r"
proof (induction n arbitrary: b)
  case 0
  then show ?case by (simp add: getStackedBaseValue_bottom)
next
  case (Suc n)
  show ?case
  proof (cases "mBarBelow (barsAt s b)")
    case None
    then show ?thesis by (simp add: getStackedBaseValue_bottom)
  next
    case (Some below)
    with Suc.prems have "stackEnds s below n" by simp
    from Suc.IH [OF this] obtain r where "getStackedBaseValue s below k p = Some r" by blast
    then show ?thesis by (simp add: getStackedBaseValue_above [OF Some])
  qed
qed

lemma valueRangeLoop_bounds:
  assumes "valueRangeLoop s this sd ps (rng, True, True) = Some (rng', hl, hu)"
  shows "hl \<and> hu \<and> lower rng' \<le> lower rng \<and> upper rng \<le> upper rng'"
  using assms
proof (induction ps arbitrary: rng)
  case Nil
  then show ?case by simp
next
  case (Cons p ps)
  from Cons.prems obtain base where
    b: "getStackedBaseValue s this (mainKey p) (0 \<le> mainValue p) = Some base"
    by (auto split: option.splits)
  define current where "current = dadd (mainValue p) base"
  define rng1 where "rng1 = (if current < lower rng then rng\<lparr>lower := current\<rparr> else rng)"
  define rng2 where "rng2 = (if upper rng1 < current then rng1\<lparr>upper := current\<rparr> else rng1)"
  have le: "lower rng2 \<le> lower rng" "upper rng \<le> upper rng2"
    by (auto simp: rng1_def rng2_def)
  show ?case
  proof (cases "sd = sdBoth \<or> (sd = sdNegative \<and> current < 0) \<or> (sd = sdPositive \<and> 0 < current)")
    case True
    then have "valueRangeLoop s this sd (p # ps) (rng, True, True) =
        valueRangeLoop s this sd ps (rng2, True, True)"
      by (simp add: b current_def [symmetric] rng1_def rng2_def Let_def split: if_splits)
    with Cons.prems have "valueRangeLoop s this sd ps (rng2, True, True) = Some (rng', hl, hu)"
      by simp
    from Cons.IH [OF this] le show ?thesis by auto
  next
    case False
    then have "valueRangeLoop s this sd (p # ps) (rng, True, True) =
        valueRangeLoop s this sd ps (rng, True, True)"
      by (auto simp: b current_def [symmetric] Let_def)
    with Cons.prems have "valueRangeLoop s this sd ps (rng, True, True) = Some (rng', hl, hu)"
      by simp
    from Cons.IH [OF this] show ?thesis .
  qed
qed

lemma valueRangeLoop_returns:
  assumes "\<And>k p. \<exists>r. getStackedBaseValue s this k p = Some r"
  shows "\<exists>st. valueRangeLoop s this sd ps (rng, hl, hu) = Some st"
proof (induction ps arbitrary: rng hl hu)
  case Nil
  then show ?case by simp
next
  case (Cons p ps)
  obtain base where b: "getStackedBaseValue s this (mainKey p) (0 \<le> mainValue p) = Some base"
    using assms by blast
  show ?case
    using Cons.IH by (simp add: b Let_def split_def)
qed

lemma getValueRange_bounds:
  assumes "getValueRange s b sd = Some (rng, f)"
  shows "f \<and> lower rng \<le> mBaseValue (barsAt s b) \<and> mBaseValue (barsAt s b) \<le> upper rng"
proof -
  from assms obtain hl hu where
    "valueRangeLoop s b sd (mDataContainer (barsAt s b))
       (\<lparr>lower = mBaseValue (barsAt s b), upper = mBaseValue (barsAt s b)\<rparr>, True, True) =
     Some (rng, hl, hu)" and f: "f"
    by (auto simp: getValueRange_def)
  from valueRangeLoop_bounds [OF this(1)] f show ?thesis by simp
qed

lemma getValueRange_returns:
  assumes "stackEnds s b n"
  shows "\<exists>rng. getValueRange s b sd = Some (rng, True)"
proof -
  have "\<exists>r. getStackedBaseValue s b k p = Some r" for k p
    using assms by (rule getStackedBaseValue_returns)
  from valueRangeLoop_returns [of s b sd "mDataContainer (barsAt s b)", OF this]
  show ?thesis
    by (auto simp: getValueRange_def)
qed

lemma double_small: "dadd 5 0 = 5" "dadd 3 0 = 3"
  by code_simp+

lemma getValueRange_example:
  assumes "mBarBelow (barsAt s b) = None" "mBaseValue (barsAt s b) = 0"
    "mDataContainer (barsAt s b) = [\<lparr>mainKey = 1, mainValue = 5\<rparr>]"
  shows "getValueRange s b sdBoth = Some (\<lparr>lower = 0, upper = 5\<rparr>, True)"
  using assms
  by (simp add: getValueRange_def getStackedBaseValue_bottom double_small)













lemma dataPlot_fields:
  "barBelow dataPlot 10 = None" "barBelow dataPlot 11 = Some 10" "barBelow dataPlot 12 = Some 11"
  "barBelow dataPlot 13 = None"
  "mBaseValue (barsAt dataPlot 10) = 0" "mBaseValue (barsAt dataPlot 13) = 0"
  "mDataContainer (barsAt dataPlot 10) = [\<lparr>mainKey = 1, mainValue = 3\<rparr>]"
  "mDataContainer (barsAt dataPlot 11) = [\<lparr>mainKey = 1, mainValue = 2\<rparr>]"
  "mDataContainer (barsAt dataPlot 13) = [\<lparr>mainKey = 1, mainValue = 5\<rparr>]"
  by code_simp+



text \<open>
  Claim C7: for a series whose chain of series below it ends, and every sign domain,
  \<^verbatim>\<open>getValueRange\<close> returns a range that contains the base value of the series, and reports
  \<^verbatim>\<open>foundRange\<close> as true; whenever the function returns, its result is of this kind. For a
  series with nothing below it, base value 0 and the one point \<open>(1, 5)\<close>, the range for
  \<^verbatim>\<open>sdBoth\<close> is from 0 to 5.
\<close>
theorem value_range_contains_base:
  "(stackEnds s b n \<longrightarrow>
      (\<exists>rng. getValueRange s b inSignDomain = Some (rng, True) \<and>
         lower rng \<le> mBaseValue (barsAt s b) \<and> mBaseValue (barsAt s b) \<le> upper rng)) \<and>
   (\<forall>rng foundRange. getValueRange s b inSignDomain = Some (rng, foundRange) \<longrightarrow>
      foundRange \<and> lower rng \<le> mBaseValue (barsAt s b) \<and> mBaseValue (barsAt s b) \<le> upper rng) \<and>
   (barBelow s b = None \<and> mBaseValue (barsAt s b) = 0 \<and>
    mDataContainer (barsAt s b) = [\<lparr>mainKey = 1, mainValue = 5\<rparr>] \<longrightarrow>
      getValueRange s b sdBoth = Some (\<lparr>lower = 0, upper = 5\<rparr>, True))"
proof -
  have 1: "stackEnds s b n \<longrightarrow>
      (\<exists>rng. getValueRange s b inSignDomain = Some (rng, True) \<and>
         lower rng \<le> mBaseValue (barsAt s b) \<and> mBaseValue (barsAt s b) \<le> upper rng)"
  proof
    assume "stackEnds s b n"
    from getValueRange_returns [OF this, of inSignDomain]
    obtain rng where r: "getValueRange s b inSignDomain = Some (rng, True)" by blast
    from getValueRange_bounds [OF r] r
    show "\<exists>rng. getValueRange s b inSignDomain = Some (rng, True) \<and>
         lower rng \<le> mBaseValue (barsAt s b) \<and> mBaseValue (barsAt s b) \<le> upper rng"
      by blast
  qed
  have 2: "\<forall>rng foundRange. getValueRange s b inSignDomain = Some (rng, foundRange) \<longrightarrow>
      foundRange \<and> lower rng \<le> mBaseValue (barsAt s b) \<and> mBaseValue (barsAt s b) \<le> upper rng"
    using getValueRange_bounds by blast
  have 3: "barBelow s b = None \<and> mBaseValue (barsAt s b) = 0 \<and>
    mDataContainer (barsAt s b) = [\<lparr>mainKey = 1, mainValue = 5\<rparr>] \<longrightarrow>
      getValueRange s b sdBoth = Some (\<lparr>lower = 0, upper = 5\<rparr>, True)"
    using getValueRange_example [of s b] by (simp add: barBelow_def)
  from 1 2 3 show ?thesis by (intro conjI)
qed

theorem value_range_contains_base_witness:
  "stackEnds dataPlot 13 0 \<and>
   getValueRange dataPlot 13 sdBoth = Some (\<lparr>lower = 0, upper = 5\<rparr>, True) \<and>
   stackEnds dataPlot 11 (Suc 0) \<and>
   (\<exists>rng. getValueRange dataPlot 11 sdNegative = Some (rng, True) \<and>
      lower rng \<le> mBaseValue (barsAt dataPlot 11) \<and> mBaseValue (barsAt dataPlot 11) \<le> upper rng)"
proof -
  have e: "stackEnds dataPlot 13 0" "stackEnds dataPlot 11 (Suc 0)"
    using dataPlot_fields by (simp_all add: barBelow_def)
  have a: "getValueRange dataPlot 13 sdBoth = Some (\<lparr>lower = 0, upper = 5\<rparr>, True)"
    using value_range_contains_base [where s = dataPlot and b = 13]
    by (simp add: dataPlot_fields)
  have b: "\<exists>rng. getValueRange dataPlot 11 sdNegative = Some (rng, True) \<and>
      lower rng \<le> mBaseValue (barsAt dataPlot 11) \<and> mBaseValue (barsAt dataPlot 11) \<le> upper rng"
    using value_range_contains_base [where s = dataPlot and b = 11 and n = "Suc 0"
        and inSignDomain = sdNegative] e(2)
    by blast
  show ?thesis using e a b by blast
qed

section \<open>Properties of the group layout\<close>

declare stackBase.simps [code]
declare getStackedBaseValue.simps [code]

lemma groupPlot_offsets:
  "keyPixelOffset (groupPlot 22) 0 10 1 = Some (- (19 / 4))"
  "keyPixelOffset (groupPlot 22) 0 12 1 = Some (41 / 8)"
  "keyPixelOffset (groupPlot 20) 0 12 1 = Some (19 / 4)"
  by code_simp+

lemma dsub_minus: "dsub (- x) y = - dadd x y"
  using round_double_minus [of "x + y"] by (simp add: dsub_def dadd_def)

lemma dsub_zero_minus: "dsub 0 y = - dadd 0 y"
  using dsub_minus [of 0 y] by simp

lemma double_consts:
  "double_of_int 0 = 0" "double_of_int 1 = 1" "double_of_int 2 = 2"
  "ddiv (double_of_int (3 - 1)) 2 = 1" "ddiv 2 2 = 1"
  by code_simp+

lemma stackBase_root: "barBelow s b = None \<Longrightarrow> stackBase s b = Some b"
  by (subst stackBase.simps) (simp add: barBelow_def)

lemma collectBaseBars_roots:
  assumes "distinct [a, b, c]" "barBelow s a = None" "barBelow s b = None" "barBelow s c = None"
  shows "collectBaseBars s [a, b, c] [] = Some [a, b, c]"
  using assms by (simp add: stackBase_root)

lemma getPixelWidth_same:
  assumes "mWidth (barsAt s x) = mWidth (barsAt s y)"
    "mWidthType (barsAt s x) = mWidthType (barsAt s y)" "keyAxis s x = keyAxis s y"
  shows "getPixelWidth s x k lu = getPixelWidth s y k lu"
  using assms
  by (simp add: getPixelWidth_def keyAxis_def split: WidthType.splits option.splits)

lemma keyPixelOffset_three:
  assumes m: "mBars (groupAt s g) = [a, b, c]" and d: "distinct [a, b, c]"
    and r: "barBelow s a = None" "barBelow s b = None" "barBelow s c = None"
  shows "keyPixelOffset s g b keyCoord = Some 0"
    and "keyPixelOffset s g a keyCoord =
      (let lu = getPixelWidth s b keyCoord (0, 0);
           result = dsub 0 (dmul \<bar>dsub (snd lu) (fst lu)\<bar> (1 / 2))
       in case getPixelSpacing s g b keyCoord of
            None \<Rightarrow> None
          | Some sp \<Rightarrow>
              (let lu = getPixelWidth s a keyCoord lu
               in Some (dsub (dsub result sp) (dmul \<bar>dsub (snd lu) (fst lu)\<bar> (1 / 2)))))"
    and "keyPixelOffset s g c keyCoord =
      (let lu = getPixelWidth s b keyCoord (0, 0);
           result = dadd 0 (dmul \<bar>dsub (snd lu) (fst lu)\<bar> (1 / 2))
       in case getPixelSpacing s g b keyCoord of
            None \<Rightarrow> None
          | Some sp \<Rightarrow>
              (let lu = getPixelWidth s c keyCoord lu
               in Some (dadd (dadd result sp) (dmul \<bar>dsub (snd lu) (fst lu)\<bar> (1 / 2)))))"
proof -
  note cb = collectBaseBars_roots [OF d r]
  have i: "QList_indexOf [a, b, c] a = 0" "QList_indexOf [a, b, c] b = 1"
    "QList_indexOf [a, b, c] c = 2"
    using d by (auto simp: QList_indexOf_def)
  note sm = signed_modulo_int_def signed_divide_int_def
  have lt: "(0::real) < 1" "\<not> (2::real) < 1" by simp_all
  show "keyPixelOffset s g b keyCoord = Some 0"
    unfolding keyPixelOffset_def m cb
    by (simp add: stackBase_root r i sm)
  show "keyPixelOffset s g a keyCoord =
      (let lu = getPixelWidth s b keyCoord (0, 0);
           result = dsub 0 (dmul \<bar>dsub (snd lu) (fst lu)\<bar> (1 / 2))
       in case getPixelSpacing s g b keyCoord of
            None \<Rightarrow> None
          | Some sp \<Rightarrow>
              (let lu = getPixelWidth s a keyCoord lu
               in Some (dsub (dsub result sp) (dmul \<bar>dsub (snd lu) (fst lu)\<bar> (1 / 2)))))"
    unfolding keyPixelOffset_def m cb
    by (simp add: stackBase_root r i sm double_consts Let_def split: option.splits)
  show "keyPixelOffset s g c keyCoord =
      (let lu = getPixelWidth s b keyCoord (0, 0);
           result = dadd 0 (dmul \<bar>dsub (snd lu) (fst lu)\<bar> (1 / 2))
       in case getPixelSpacing s g b keyCoord of
            None \<Rightarrow> None
          | Some sp \<Rightarrow>
              (let lu = getPixelWidth s c keyCoord lu
               in Some (dadd (dadd result sp) (dmul \<bar>dsub (snd lu) (fst lu)\<bar> (1 / 2)))))"
    unfolding keyPixelOffset_def m cb
    by (simp add: stackBase_root r i sm double_consts Let_def split: option.splits)
qed

lemma groupPlot_fields:
  "barBelow (groupPlot k) x = None"
  "mWidth (barsAt (groupPlot k) x) = dlit (75 / 100)"
  "mWidthType (barsAt (groupPlot k) x) = wtPlotCoords"
  "keyAxis (groupPlot k) x = (if x = 12 then Some k else Some 20)"
  by (simp_all add: groupPlot_def QCPBarsGroup_append_def setBarsGroup_def registerBars_def
      unregisterBars_def updGroup_def updBars_def newPlot_def newBars_def newBarsGroup_def
      barBelow_def keyAxis_def Let_def)

text \<open>
  Claim C5, as amended: for a group of exactly three members that are the bases of their
  stacks, with the same width, the same width type and the same key axis, \<^verbatim>\<open>keyPixelOffset\<close> at
  a key coordinate is 0 for the middle member, and the offset of the first member is the
  negative of the offset of the third. The two offsets exist whenever the spacing of the group
  can be computed for the middle member.
\<close>
theorem group_offsets_symmetric:
  assumes "mBars (groupAt s g) = [a, b, c]" "distinct [a, b, c]"
    and "barBelow s a = None" "barBelow s b = None" "barBelow s c = None"
    and "mWidth (barsAt s a) = mWidth (barsAt s b)" "mWidth (barsAt s b) = mWidth (barsAt s c)"
    and "mWidthType (barsAt s a) = mWidthType (barsAt s b)"
      "mWidthType (barsAt s b) = mWidthType (barsAt s c)"
    and "keyAxis s a = keyAxis s b" "keyAxis s b = keyAxis s c"
  shows "keyPixelOffset s g b keyCoord = Some 0 \<and>
         keyPixelOffset s g a keyCoord = map_option uminus (keyPixelOffset s g c keyCoord) \<and>
         (getPixelSpacing s g b keyCoord \<noteq> None \<longrightarrow>
            (\<exists>x. keyPixelOffset s g c keyCoord = Some x \<and>
                 keyPixelOffset s g a keyCoord = Some (- x) \<and> \<bar>- x\<bar> = \<bar>x\<bar>))"
proof -
  note k = keyPixelOffset_three [OF assms(1-5), of keyCoord]
  have w: "getPixelWidth s a keyCoord lu = getPixelWidth s c keyCoord lu" for lu
    using assms(6-11) by (intro getPixelWidth_same) simp_all
  have m: "keyPixelOffset s g a keyCoord = map_option uminus (keyPixelOffset s g c keyCoord)"
    unfolding k(2,3)
    by (simp add: w Let_def dsub_zero_minus dsub_minus split: option.splits)
  have e: "\<exists>x. keyPixelOffset s g c keyCoord = Some x \<and>
                 keyPixelOffset s g a keyCoord = Some (- x) \<and> \<bar>- x\<bar> = \<bar>x\<bar>"
    if "getPixelSpacing s g b keyCoord \<noteq> None"
  proof -
    from that obtain x where "keyPixelOffset s g c keyCoord = Some x"
      unfolding k(3) by (auto simp: Let_def)
    with m show ?thesis by simp
  qed
  from k(1) m e show ?thesis by blast
qed

theorem group_offsets_symmetric_witness:
  "mBars (groupAt (groupPlot 20) 0) = [10, 11, 12] \<and>
   keyAxis (groupPlot 20) 10 = keyAxis (groupPlot 20) 12 \<and>
   keyPixelOffset (groupPlot 20) 0 11 1 = Some 0 \<and>
   keyPixelOffset (groupPlot 20) 0 12 1 = Some (19 / 4) \<and>
   keyPixelOffset (groupPlot 20) 0 10 1 = Some (- (19 / 4))"
proof -
  have "keyPixelOffset (groupPlot 20) 0 11 1 = Some 0 \<and>
      keyPixelOffset (groupPlot 20) 0 10 1 =
        map_option uminus (keyPixelOffset (groupPlot 20) 0 12 1)"
    using group_offsets_symmetric [where s = "groupPlot 20" and g = 0 and a = 10 and b = 11
        and c = 12 and keyCoord = 1]
    by (simp add: groupPlot_members groupPlot_fields)
  then show ?thesis
    by (simp add: groupPlot_offsets groupPlot_members groupPlot_fields)
qed

text \<open>
  Claim C5 as it is stated asks for the same width and the same width type only. In the
  group of \<open>groupPlot 22\<close> the three series have the default width 0.75 in plot coordinates, and
  the third series is on a key axis that maps a coordinate to twice the pixel distance: at
  key 1 the offset of the first series is \<open>- 4.75\<close> and the offset of the third is \<open>5.125\<close>.
\<close>
theorem group_offsets_counterexample:
  "mBars (groupAt (groupPlot 22) 0) = [10, 11, 12] \<and>
   barBelow (groupPlot 22) 10 = None \<and> barBelow (groupPlot 22) 11 = None \<and>
   barBelow (groupPlot 22) 12 = None \<and>
   mWidth (barsAt (groupPlot 22) 10) = mWidth (barsAt (groupPlot 22) 11) \<and>
   mWidth (barsAt (groupPlot 22) 11) = mWidth (barsAt (groupPlot 22) 12) \<and>
   mWidthType (barsAt (groupPlot 22) 10) = mWidthType (barsAt (groupPlot 22) 11) \<and>
   mWidthType (barsAt (groupPlot 22) 11) = mWidthType (barsAt (groupPlot 22) 12) \<and>
   keyPixelOffset (groupPlot 22) 0 10 1 = Some (- (19 / 4)) \<and>
   keyPixelOffset (groupPlot 22) 0 12 1 = Some (41 / 8) \<and>
   \<bar>- (19 / 4)\<bar> \<noteq> \<bar>41 / 8 :: real\<bar>"
  by (simp add: groupPlot_offsets groupPlot_members groupPlot_fields)

end
